theory Spec2Isabelle
  imports Complex_Main "HOL-Library.Word"
begin

section \<open>The cache-backed user repository\<close>

text \<open>
  The repository of \<^verbatim>\<open>main.go\<close> keeps users in a map that stands for a database and
  in one of two caches, a \<^verbatim>\<open>sync.Map\<close> or a plain map under a \<^verbatim>\<open>sync.RWMutex\<close>.
  The three source files share the repository code, except that the repository of
  \<^verbatim>\<open>unnamed/part_000\<close> has no mutex around the database map.

  Keys are Go \<^verbatim>\<open>int\<close>s that are only compared, never computed with, so they are
  modelled as \<open>int\<close>. The parameter \<^verbatim>\<open>id\<close> of the source is written \<open>uid\<close>.
\<close>

subsection \<open>Data\<close>

record User =
  Name :: string

text \<open>The zero value \<^verbatim>\<open>User{}\<close>.\<close>

definition User_zero :: User where
  "User_zero = \<lparr>Name = ''''\<rparr>"

text \<open>
  A Go map value is \<^verbatim>\<open>nil\<close> until \<^verbatim>\<open>make\<close> allocates it: \<open>None\<close> is the nil
  map. Reading a nil map finds nothing; assigning into it panics.
\<close>

type_synonym gomap = "(int \<rightharpoonup> User) option"

text \<open>A non-nil \<^verbatim>\<open>*log.Logger\<close>; the nil pointer is \<open>None\<close>.\<close>

datatype Logger = Logger

datatype panic =
    NilMapAssign  \<comment> \<open>assignment to entry in nil map\<close>
  | NilDeref      \<comment> \<open>nil pointer dereference\<close>
  | NegativeWaitGroup  \<comment> \<open>sync: negative WaitGroup counter\<close>
  | Deadlock           \<comment> \<open>fatal error: all goroutines are asleep - deadlock!\<close>

text \<open>
  What an operation does to the locks, the maps and the logger, in program order.
  The mutexes hold no data, so they appear here only.
\<close>

datatype event =
    DbLock | DbUnlock            \<comment> \<open>\<^verbatim>\<open>dbMutex.Lock()\<close>, \<^verbatim>\<open>dbMutex.Unlock()\<close>\<close>
  | DbRead int | DbWrite int User \<comment> \<open>\<^verbatim>\<open>u.db[id]\<close>, \<^verbatim>\<open>u.db[id] = user\<close>\<close>
  | RLock | RUnlock              \<comment> \<open>\<^verbatim>\<open>rwm.RLock()\<close>, \<^verbatim>\<open>rwm.RUnlock()\<close>\<close>
  | WLock | WUnlock              \<comment> \<open>\<^verbatim>\<open>rwm.Lock()\<close>, \<^verbatim>\<open>rwm.Unlock()\<close>\<close>
  | RwmRead int | RwmWrite int User
  | SMLoad int | SMStore int User
  | Println string               \<comment> \<open>a line handed to the logger\<close>
  | Stdout string                \<comment> \<open>text written to standard output\<close>

record UserRepo =
  once :: bool             \<comment> \<open>the field \<^verbatim>\<open>o sync.Once\<close>: has \<^verbatim>\<open>doInit\<close> run\<close>
  db :: gomap
  isCacheSM :: bool
  cacheSM :: "int \<rightharpoonup> User" \<comment> \<open>\<^verbatim>\<open>sync.Map\<close>, usable from its zero value; only users are stored in it,
                              so the assertion \<^verbatim>\<open>user.(User)\<close> cannot fail\<close>
  cacheRWM :: gomap
  logger :: "Logger option"

text \<open>The zero value \<^verbatim>\<open>UserRepo{}\<close>.\<close>

definition UserRepo_zero :: UserRepo where
  "UserRepo_zero =
     \<lparr>once = False, db = None, isCacheSM = False, cacheSM = Map.empty,
      cacheRWM = None, logger = None\<rparr>"

definition foundInCache :: string where "foundInCache = ''found in cache!''"
definition notFoundInCache :: string where "notFoundInCache = ''not found in cache''"
definition foundInDB :: string where "foundInDB = ''found in db!!''"
definition notFoundInDB :: string where "notFoundInDB = ''not found in db''"
definition appIsStarted :: string where "appIsStarted = ''app is started!''"

subsection \<open>Outcomes\<close>

text \<open>
  A call yields the events it performed and either a panic or its result. Nothing in the
  program recovers from a panic, so a panic ends the run, as does the fatal error that the
  runtime raises when every goroutine is blocked.
\<close>

type_synonym 'a outcome = "event list \<times> (panic + 'a)"

definition ret :: "'a \<Rightarrow> 'a outcome" where
  "ret a = ([], Inr a)"

definition fail :: "panic \<Rightarrow> 'a outcome" where
  "fail p = ([], Inl p)"

definition emit :: "event list \<Rightarrow> unit outcome" where
  "emit es = (es, Inr ())"

definition andThen :: "'a outcome \<Rightarrow> ('a \<Rightarrow> 'b outcome) \<Rightarrow> 'b outcome" where
  "andThen m f =
     (case m of
        (es, Inl p) \<Rightarrow> (es, Inl p)
      | (es, Inr a) \<Rightarrow> (case f a of (es', r) \<Rightarrow> (es @ es', r)))"

text \<open>\<^verbatim>\<open>v, ok := m[id]\<close>: a nil map has no entries.\<close>

definition map_lookup :: "gomap \<Rightarrow> int \<Rightarrow> User option" where
  "map_lookup m k = (case m of None \<Rightarrow> None | Some f \<Rightarrow> f k)"

text \<open>\<^verbatim>\<open>m[id] = user\<close>: panics on the nil map.\<close>

definition map_assign :: "gomap \<Rightarrow> int \<Rightarrow> User \<Rightarrow> panic + gomap" where
  "map_assign m k v = (case m of None \<Rightarrow> Inl NilMapAssign | Some f \<Rightarrow> Inr (Some (f(k \<mapsto> v))))"

text \<open>\<^verbatim>\<open>u.logger.Println(s)\<close>: a method call through a nil logger panics.\<close>

definition logPrintln :: "Logger option \<Rightarrow> string \<Rightarrow> unit outcome" where
  "logPrintln lg s = (case lg of None \<Rightarrow> fail NilDeref | Some _ \<Rightarrow> emit [Println s])"

subsection \<open>Cache access\<close>

definition getFromCache :: "int \<Rightarrow> UserRepo \<Rightarrow> (User \<times> bool) outcome" where
  "getFromCache uid u =
     (if isCacheSM u then
        andThen (emit [SMLoad uid]) (\<lambda>_.
        case cacheSM u uid of
          None \<Rightarrow> andThen (logPrintln (logger u) notFoundInCache) (\<lambda>_. ret (User_zero, False))
        | Some user \<Rightarrow> andThen (logPrintln (logger u) foundInCache) (\<lambda>_. ret (user, True)))
      else
        andThen (emit [RLock, RwmRead uid, RUnlock]) (\<lambda>_.
        case map_lookup (cacheRWM u) uid of
          None \<Rightarrow> andThen (logPrintln (logger u) notFoundInCache) (\<lambda>_. ret (User_zero, False))
        | Some user \<Rightarrow> andThen (logPrintln (logger u) foundInCache) (\<lambda>_. ret (user, True))))"

definition storeInCache :: "int \<Rightarrow> User \<Rightarrow> UserRepo \<Rightarrow> UserRepo outcome" where
  "storeInCache uid user u =
     (if isCacheSM u then
        andThen (emit [SMStore uid user]) (\<lambda>_. ret (u\<lparr>cacheSM := (cacheSM u)(uid \<mapsto> user)\<rparr>))
      else
        andThen (emit [WLock]) (\<lambda>_.
        case map_assign (cacheRWM u) uid user of
          Inl p \<Rightarrow> fail p
        | Inr m \<Rightarrow> andThen (emit [RwmWrite uid user, WUnlock]) (\<lambda>_. ret (u\<lparr>cacheRWM := m\<rparr>))))"

subsection \<open>Get and Store\<close>

text \<open>\<^verbatim>\<open>UserRepo.Get\<close> of \<^verbatim>\<open>main.go\<close> (and of \<^verbatim>\<open>unnamed/part_001\<close>, which is the same).\<close>

definition Get :: "int \<Rightarrow> UserRepo \<Rightarrow> ((User \<times> bool) \<times> UserRepo) outcome" where
  "Get uid u =
     andThen (getFromCache uid u) (\<lambda>(v, ok).
     if ok then ret ((v, True), u)
     else
       andThen (emit [DbLock, DbRead uid, DbUnlock]) (\<lambda>_.
       case map_lookup (db u) uid of
         None \<Rightarrow> andThen (logPrintln (logger u) notFoundInDB) (\<lambda>_. ret ((User_zero, False), u))
       | Some user \<Rightarrow>
           andThen (storeInCache uid user u) (\<lambda>u'.
           andThen (logPrintln (logger u') foundInDB) (\<lambda>_. ret ((user, True), u')))))"

definition Store :: "int \<Rightarrow> User \<Rightarrow> UserRepo \<Rightarrow> UserRepo outcome" where
  "Store uid user u =
     andThen (emit [DbLock]) (\<lambda>_.
     case map_assign (db u) uid user of
       Inl p \<Rightarrow> fail p
     | Inr m \<Rightarrow>
         andThen (emit [DbWrite uid user, DbUnlock]) (\<lambda>_.
         storeInCache uid user (u\<lparr>db := m\<rparr>)))"

text \<open>
  \<^verbatim>\<open>UserRepo.Get\<close> and \<^verbatim>\<open>UserRepo.Store\<close> of \<^verbatim>\<open>unnamed/part_000\<close>: the repository
  has no \<^verbatim>\<open>dbMutex\<close> there and reads and writes \<^verbatim>\<open>u.db\<close> directly.
\<close>

definition Get_p0 :: "int \<Rightarrow> UserRepo \<Rightarrow> ((User \<times> bool) \<times> UserRepo) outcome" where
  "Get_p0 uid u =
     andThen (getFromCache uid u) (\<lambda>(v, ok).
     if ok then ret ((v, True), u)
     else
       andThen (emit [DbRead uid]) (\<lambda>_.
       case map_lookup (db u) uid of
         None \<Rightarrow> andThen (logPrintln (logger u) notFoundInDB) (\<lambda>_. ret ((User_zero, False), u))
       | Some user \<Rightarrow>
           andThen (storeInCache uid user u) (\<lambda>u'.
           andThen (logPrintln (logger u') foundInDB) (\<lambda>_. ret ((user, True), u')))))"

definition Store_p0 :: "int \<Rightarrow> User \<Rightarrow> UserRepo \<Rightarrow> UserRepo outcome" where
  "Store_p0 uid user u =
     (case map_assign (db u) uid user of
        Inl p \<Rightarrow> fail p
      | Inr m \<Rightarrow>
          andThen (emit [DbWrite uid user]) (\<lambda>_.
          storeInCache uid user (u\<lparr>db := m\<rparr>)))"

subsection \<open>Construction\<close>

definition doInit :: "UserRepo \<Rightarrow> UserRepo" where
  "doInit u = u\<lparr>db := Some Map.empty, cacheRWM := Some Map.empty\<rparr>"

text \<open>
  \<^verbatim>\<open>UserRepo.Init\<close>: the two assignments run on every call; \<^verbatim>\<open>u.o.Do(u.doInit)\<close>
  runs \<^verbatim>\<open>doInit\<close> on the first call only.
\<close>

definition Init :: "bool \<Rightarrow> Logger option \<Rightarrow> UserRepo \<Rightarrow> UserRepo" where
  "Init b lg u =
     (let u1 = u\<lparr>isCacheSM := b, logger := lg\<rparr>
      in if once u1 then u1 else (doInit u1)\<lparr>once := True\<rparr>)"

subsection \<open>The layers above the repository\<close>

text \<open>
  \<^verbatim>\<open>UserService\<close> holds a pointer to the repository and \<^verbatim>\<open>UserServer\<close> one to the
  service. Each object has one owner, so the pointee is kept inside its holder; the nil
  pointer is \<open>None\<close>.
\<close>

record UserService =
  repo :: "UserRepo option"

record UserServer =
  service :: "UserService option"

definition UserService_Init :: "UserRepo \<Rightarrow> UserService \<Rightarrow> UserService" where
  "UserService_Init r s = s\<lparr>repo := Some r\<rparr>"

definition UserService_Get :: "int \<Rightarrow> UserService \<Rightarrow> ((User \<times> bool) \<times> UserService) outcome" where
  "UserService_Get uid s =
     (case repo s of
        None \<Rightarrow> fail NilDeref
      | Some r \<Rightarrow> andThen (Get uid r) (\<lambda>(res, r'). ret (res, s\<lparr>repo := Some r'\<rparr>)))"

definition UserService_Store :: "int \<Rightarrow> User \<Rightarrow> UserService \<Rightarrow> UserService outcome" where
  "UserService_Store uid user s =
     (case repo s of
        None \<Rightarrow> fail NilDeref
      | Some r \<Rightarrow> andThen (Store uid user r) (\<lambda>r'. ret (s\<lparr>repo := Some r'\<rparr>)))"

definition UserServer_Init :: "UserService \<Rightarrow> UserServer \<Rightarrow> UserServer" where
  "UserServer_Init sv s = s\<lparr>service := Some sv\<rparr>"

definition UserServer_Get :: "int \<Rightarrow> UserServer \<Rightarrow> ((User \<times> bool) \<times> UserServer) outcome" where
  "UserServer_Get uid s =
     (case service s of
        None \<Rightarrow> fail NilDeref
      | Some sv \<Rightarrow> andThen (UserService_Get uid sv) (\<lambda>(res, sv'). ret (res, s\<lparr>service := Some sv'\<rparr>)))"

definition UserServer_Store :: "int \<Rightarrow> User \<Rightarrow> UserServer \<Rightarrow> UserServer outcome" where
  "UserServer_Store uid user s =
     (case service s of
        None \<Rightarrow> fail NilDeref
      | Some sv \<Rightarrow> andThen (UserService_Store uid user sv) (\<lambda>sv'. ret (s\<lparr>service := Some sv'\<rparr>)))"

text \<open>
  \<^verbatim>\<open>App\<close>. Its fields \<^verbatim>\<open>o\<close>, \<^verbatim>\<open>logger\<close> and \<^verbatim>\<open>isCacheSM\<close> are prefixed here, the
  repository has fields of the same names. \<open>buf\<close> is the buffer the logger writes to,
  one entry per line, without the time stamp the logger puts in front.
\<close>

record App =
  app_o :: bool
  buf :: "string list"
  app_logger :: "Logger option"
  UserS :: UserServer
  app_isCacheSM :: bool

definition App_zero :: App where
  "App_zero =
     \<lparr>app_o = False, buf = [], app_logger = None, UserS = \<lparr>service = None\<rparr>,
      app_isCacheSM = False\<rparr>"

text \<open>The lines among the events, which is what reaches the buffer.\<close>

fun printed :: "event list \<Rightarrow> string list" where
  "printed [] = []"
| "printed (Println s # es) = s # printed es"
| "printed (_ # es) = printed es"

definition App_doInit :: "App \<Rightarrow> App outcome" where
  "App_doInit a =
     (let a1 = a\<lparr>app_logger := Some Logger\<rparr>;
          userRepo = Init (app_isCacheSM a1) (app_logger a1) UserRepo_zero;
          userService = UserService_Init userRepo \<lparr>repo = None\<rparr>;
          userServer = UserServer_Init userService \<lparr>service = None\<rparr>;
          a2 = a1\<lparr>UserS := userServer\<rparr>
      in andThen (logPrintln (app_logger a2) appIsStarted) (\<lambda>_.
         ret (a2\<lparr>buf := buf a2 @ [appIsStarted]\<rparr>)))"

definition App_Init :: "bool \<Rightarrow> App \<Rightarrow> App outcome" where
  "App_Init b a =
     (let a1 = a\<lparr>app_isCacheSM := b\<rparr>
      in if app_o a1 then ret a1
         else andThen (App_doInit a1) (\<lambda>a2. ret (a2\<lparr>app_o := True\<rparr>)))"

definition CreateApp :: "bool \<Rightarrow> App outcome" where
  "CreateApp b = App_Init b App_zero"

text \<open>
  The calls \<^verbatim>\<open>app.UserS.Get(id)\<close> and \<^verbatim>\<open>app.UserS.Store(id, user)\<close> of the
  scenarios: the lines the repository logs land in the buffer of the app.
\<close>

definition UserS_Get :: "int \<Rightarrow> App \<Rightarrow> ((User \<times> bool) \<times> App) outcome" where
  "UserS_Get uid a =
     (case UserServer_Get uid (UserS a) of
        (es, Inl p) \<Rightarrow> (es, Inl p)
      | (es, Inr (res, s)) \<Rightarrow> (es, Inr (res, a\<lparr>UserS := s, buf := buf a @ printed es\<rparr>)))"

definition UserS_Store :: "int \<Rightarrow> User \<Rightarrow> App \<Rightarrow> App outcome" where
  "UserS_Store uid user a =
     (case UserServer_Store uid user (UserS a) of
        (es, Inl p) \<Rightarrow> (es, Inl p)
      | (es, Inr s) \<Rightarrow> (es, Inr (a\<lparr>UserS := s, buf := buf a @ printed es\<rparr>)))"

subsection \<open>Sequences of calls\<close>

text \<open>
  A caller that issues \<^verbatim>\<open>Get\<close> and \<^verbatim>\<open>Store\<close> calls one after the other, and what it
  sees come back.
\<close>

datatype op = OpGet int | OpStore int User

datatype res = Got User bool | Stored

fun step :: "op \<Rightarrow> UserRepo \<Rightarrow> (res \<times> UserRepo) outcome" where
  "step (OpGet k) u = andThen (Get k u) (\<lambda>((v, ok), u'). ret (Got v ok, u'))"
| "step (OpStore k r) u = andThen (Store k r u) (\<lambda>u'. ret (Stored, u'))"

fun run :: "op list \<Rightarrow> UserRepo \<Rightarrow> (res list \<times> UserRepo) outcome" where
  "run [] u = ret ([], u)"
| "run (x # xs) u =
     andThen (step x u) (\<lambda>(r, u').
     andThen (run xs u') (\<lambda>(rs, u''). ret (r # rs, u'')))"

text \<open>The same caller on the repository of \<^verbatim>\<open>unnamed/part_000\<close>.\<close>

fun step_p0 :: "op \<Rightarrow> UserRepo \<Rightarrow> (res \<times> UserRepo) outcome" where
  "step_p0 (OpGet k) u = andThen (Get_p0 k u) (\<lambda>((v, ok), u'). ret (Got v ok, u'))"
| "step_p0 (OpStore k r) u = andThen (Store_p0 k r u) (\<lambda>u'. ret (Stored, u'))"

fun run_p0 :: "op list \<Rightarrow> UserRepo \<Rightarrow> (res list \<times> UserRepo) outcome" where
  "run_p0 [] u = ret ([], u)"
| "run_p0 (x # xs) u =
     andThen (step_p0 x u) (\<lambda>(r, u').
     andThen (run_p0 xs u') (\<lambda>(rs, u''). ret (r # rs, u'')))"

text \<open>
  A caller that may also call \<^verbatim>\<open>UserRepo.Init\<close> again between the other calls.
\<close>

datatype call = Call op | CallInit bool "Logger option"

fun calls :: "call list \<Rightarrow> UserRepo \<Rightarrow> UserRepo outcome" where
  "calls [] u = ret u"
| "calls (Call x # cs) u = andThen (step x u) (\<lambda>(r, u'). calls cs u')"
| "calls (CallInit b lg # cs) u = calls cs (Init b lg u)"

text \<open>The repository as \<^verbatim>\<open>App.doInit\<close> builds it, with the logger of the app.\<close>

definition newUserRepo :: "bool \<Rightarrow> UserRepo" where
  "newUserRepo b = Init b (Some Logger) UserRepo_zero"

subsection \<open>Predicates on repositories and events\<close>

text \<open>\<^verbatim>\<open>doInit\<close> has run and a logger is set: the state every call of the program finds.\<close>

definition initialised :: "UserRepo \<Rightarrow> bool" where
  "initialised u = (once u \<and> db u \<noteq> None \<and> cacheRWM u \<noteq> None \<and> logger u \<noteq> None)"

text \<open>The cache the strategy flag selects, as a map.\<close>

definition activeCache :: "UserRepo \<Rightarrow> int \<rightharpoonup> User" where
  "activeCache u = (if isCacheSM u then cacheSM u else map_lookup (cacheRWM u))"

text \<open>
  The repository after an entry went into the cache in use, and after one went into the
  database map, for a repository whose maps are allocated.
\<close>

definition cachePut :: "int \<Rightarrow> User \<Rightarrow> UserRepo \<Rightarrow> UserRepo" where
  "cachePut k r u =
     (if isCacheSM u then u\<lparr>cacheSM := (cacheSM u)(k \<mapsto> r)\<rparr>
      else u\<lparr>cacheRWM := Some ((the (cacheRWM u))(k \<mapsto> r))\<rparr>)"

definition dbPut :: "int \<Rightarrow> User \<Rightarrow> UserRepo \<Rightarrow> UserRepo" where
  "dbPut k r u = u\<lparr>db := Some ((the (db u))(k \<mapsto> r))\<rparr>"

text \<open>
  What a call returns and leaves behind on a repository whose maps are allocated and
  whose logger is set, written without the events.
\<close>

fun effect :: "op \<Rightarrow> UserRepo \<Rightarrow> res \<times> UserRepo" where
  "effect (OpGet k) u =
     (case activeCache u k of
        Some v \<Rightarrow> (Got v True, u)
      | None \<Rightarrow> (case map_lookup (db u) k of
                   None \<Rightarrow> (Got User_zero False, u)
                 | Some r \<Rightarrow> (Got r True, cachePut k r u)))"
| "effect (OpStore k r) u = (Stored, cachePut k r (dbPut k r u))"

fun effects :: "op list \<Rightarrow> UserRepo \<Rightarrow> res list \<times> UserRepo" where
  "effects [] u = ([], u)"
| "effects (x # xs) u =
     (case effect x u of (r, u') \<Rightarrow> (case effects xs u' of (rs, u'') \<Rightarrow> (r # rs, u'')))"

text \<open>Events on the database map or its mutex.\<close>

fun touchesDb :: "event \<Rightarrow> bool" where
  "touchesDb DbLock = True"
| "touchesDb DbUnlock = True"
| "touchesDb (DbRead _) = True"
| "touchesDb (DbWrite _ _) = True"
| "touchesDb _ = False"

text \<open>
  Every entry of the cache in use is an entry of the database map with the same record.
\<close>

definition cacheAgrees :: "UserRepo \<Rightarrow> bool" where
  "cacheAgrees u = (\<forall>k v. activeCache u k = Some v \<longrightarrow> map_lookup (db u) k = Some v)"

text \<open>The cache that the strategy flag does not select holds nothing.\<close>

definition unusedCacheEmpty :: "UserRepo \<Rightarrow> bool" where
  "unusedCacheEmpty u =
     (if isCacheSM u then cacheRWM u = Some Map.empty else cacheSM u = Map.empty)"

text \<open>
  Lock discipline of the database map over a run of events, given whether the mutex is
  held at the start: the map is read and written only while the mutex is held, the mutex
  is not taken twice nor released when free, and it is free at the end.
\<close>

fun dbGuarded :: "bool \<Rightarrow> event list \<Rightarrow> bool" where
  "dbGuarded held [] = (\<not> held)"
| "dbGuarded held (DbLock # es) = (\<not> held \<and> dbGuarded True es)"
| "dbGuarded held (DbUnlock # es) = (held \<and> dbGuarded False es)"
| "dbGuarded held (DbRead k # es) = (held \<and> dbGuarded held es)"
| "dbGuarded held (DbWrite k v # es) = (held \<and> dbGuarded held es)"
| "dbGuarded held (e # es) = dbGuarded held es"

text \<open>The record the scenario of \<^verbatim>\<open>unnamed/part_000\<close> stores under key 1.\<close>

definition ivan :: User where
  "ivan = \<lparr>Name = ''Ivan''\<rparr>"

text \<open>
  The flag that \<^verbatim>\<open>UserRepo.Init\<close> stored last along a sequence of calls, starting
  from the flag \<open>b\<close>.
\<close>

fun flagAfter :: "bool \<Rightarrow> call list \<Rightarrow> bool" where
  "flagAfter b [] = b"
| "flagAfter b (Call x # cs) = flagAfter b cs"
| "flagAfter b (CallInit b' lg # cs) = flagAfter b' cs"

text \<open>The repository behind \<^verbatim>\<open>app.UserS\<close>, following the two pointers.\<close>

definition appRepo :: "App \<Rightarrow> UserRepo option" where
  "appRepo a =
     (case service (UserS a) of
        None \<Rightarrow> None
      | Some sv \<Rightarrow> repo sv)"

section \<open>The load generator\<close>

subsection \<open>float64 arithmetic\<close>

text \<open>
  The load generator compares \<^verbatim>\<open>float64(j) / float64(quota)\<close> with the read ratio.
  A finite \<^verbatim>\<open>float64\<close> is a rational number, and each operation returns the exact
  result rounded to the nearest number with a 53-bit significand, ties to the even one.
  The values that occur here are quotients of integers below \<open>2^63\<close>, so they lie far
  inside the normal range and neither subnormal numbers, infinities nor NaN arise.
\<close>

text \<open>Rounding to the nearest integer, ties to even.\<close>

definition rne :: "rat \<Rightarrow> int" where
  "rne t =
     (let f = \<lfloor>t\<rfloor>; r = t - of_int f
      in if r < 1 / 2 then f else if 1 / 2 < r then f + 1 else if even f then f else f + 1)"

text \<open>The binary exponent of a positive number: \<open>2^e \<le> x < 2^(e+1)\<close>.\<close>

function expo :: "rat \<Rightarrow> int" where
  "expo x =
     (if x \<le> 0 then 0
      else if x < 1 / 2 then expo (2 * x) - 1
      else if x < 1 then - 1
      else if 2 \<le> x then expo (x / 2) + 1
      else 0)"
  by pat_completeness auto
termination
proof (relation "measure (\<lambda>x. nat \<lfloor>\<bar>log 2 (real_of_rat x)\<bar>\<rfloor>)")
  show "wf (measure (\<lambda>x. nat \<lfloor>\<bar>log 2 (real_of_rat x)\<bar>\<rfloor>))"
    by simp
next
  fix x :: rat
  assume "\<not> x \<le> 0" "x < 1 / 2"
  then have "real_of_rat 0 < real_of_rat x" "real_of_rat x < real_of_rat (1 / 2)"
    by (simp_all only: of_rat_less not_le)
  then have x: "0 < real_of_rat x" "real_of_rat x < 1 / 2"
    by (simp_all add: of_rat_divide)
  have l: "log 2 (2 * real_of_rat x) = 1 + log 2 (real_of_rat x)"
    using x by (simp add: log_mult)
  have "log 2 (real_of_rat x) < log 2 (1 / 2)"
    using x by (subst log_less_cancel_iff) simp_all
  then have n: "log 2 (real_of_rat x) < - 1"
    by (simp add: log_divide)
  have "nat \<lfloor>\<bar>log 2 (2 * real_of_rat x)\<bar>\<rfloor> < nat \<lfloor>\<bar>log 2 (real_of_rat x)\<bar>\<rfloor>"
    unfolding l using n by (simp add: abs_if) linarith
  then show "(2 * x, x) \<in> measure (\<lambda>x. nat \<lfloor>\<bar>log 2 (real_of_rat x)\<bar>\<rfloor>)"
    by (simp add: of_rat_mult)
next
  fix x :: rat
  assume "\<not> x \<le> 0" "\<not> x < 1 / 2" "\<not> x < 1" "2 \<le> x"
  then have "real_of_rat 2 \<le> real_of_rat x"
    by (simp only: of_rat_less_eq)
  then have x: "2 \<le> real_of_rat x"
    by simp
  have p: "real_of_rat x \<noteq> 0" "0 < real_of_rat x"
    using x by linarith+
  then have l: "log 2 (real_of_rat x / 2) = log 2 (real_of_rat x) - 1"
    by (simp add: log_divide)
  have "log 2 2 \<le> log 2 (real_of_rat x)"
    using x p by (subst log_le_cancel_iff) simp_all
  then have n: "1 \<le> log 2 (real_of_rat x)"
    by simp
  have "nat \<lfloor>\<bar>log 2 (real_of_rat x / 2)\<bar>\<rfloor> < nat \<lfloor>\<bar>log 2 (real_of_rat x)\<bar>\<rfloor>"
    unfolding l using n by (simp add: abs_if)
  then show "(x / 2, x) \<in> measure (\<lambda>x. nat \<lfloor>\<bar>log 2 (real_of_rat x)\<bar>\<rfloor>)"
    by (simp add: of_rat_divide)
qed

declare expo.simps [simp del]

text \<open>Rounding to \<^verbatim>\<open>float64\<close>, for numbers in the normal range.\<close>

definition round_f64 :: "rat \<Rightarrow> rat" where
  "round_f64 x =
     (if x = 0 then 0
      else let e = expo \<bar>x\<bar> - 52
           in sgn x * of_int (rne (\<bar>x\<bar> / 2 powi e)) * 2 powi e)"

text \<open>The conversion \<^verbatim>\<open>float64(n)\<close> of an \<^verbatim>\<open>int\<close> and the division of two \<^verbatim>\<open>float64\<close>.\<close>

definition float64_of_int :: "int \<Rightarrow> rat" where
  "float64_of_int n = round_f64 (of_int n)"

definition f64_div :: "rat \<Rightarrow> rat \<Rightarrow> rat" where
  "f64_div a b = round_f64 (a / b)"

subsection \<open>Integers and their decimal form\<close>

text \<open>
  Go's \<^verbatim>\<open>/\<close> on \<^verbatim>\<open>int\<close> truncates towards zero. The loop indices and the quotas
  stay between 0 and the quota, so the 64-bit \<^verbatim>\<open>int\<close> is modelled as \<open>int\<close>.
\<close>

definition go_div :: "int \<Rightarrow> int \<Rightarrow> int" where
  "go_div a b = sgn a * sgn b * (\<bar>a\<bar> div \<bar>b\<bar>)"

text \<open>\<^verbatim>\<open>%d\<close> of \<^verbatim>\<open>fmt.Sprintf\<close>: the decimal digits, with a sign for a negative number.\<close>

definition digit :: "nat \<Rightarrow> char" where
  "digit d = ''0123456789'' ! d"

function showNat :: "nat \<Rightarrow> string" where
  "showNat n = (if n < 10 then [digit n] else showNat (n div 10) @ [digit (n mod 10)])"
  by pat_completeness auto
termination
  by (relation "measure (\<lambda>n. n)") auto

declare showNat.simps [simp del]

definition showInt :: "int \<Rightarrow> string" where
  "showInt i = (if i < 0 then CHR ''-'' # showNat (nat (- i)) else showNat (nat i))"

subsection \<open>The workers\<close>

text \<open>The two ratios are \<^verbatim>\<open>float64\<close> fields; finite values are meant.\<close>

record Scale =
  name :: string
  totalOps :: int
  concurrency :: int
  readRatio :: rat
  writeRatio :: rat

text \<open>\<^verbatim>\<open>scale.totalOps / scale.concurrency\<close>, the number of calls of one goroutine.\<close>

definition quota :: "Scale \<Rightarrow> int" where
  "quota scale = go_div (totalOps scale) (concurrency scale)"

text \<open>\<^verbatim>\<open>User{Name: fmt.Sprintf("User-%d", j)}\<close>.\<close>

definition userNo :: "int \<Rightarrow> User" where
  "userNo j = \<lparr>Name = ''User-'' @ showInt j\<rparr>"

text \<open>
  The body of the inner loop of \<^verbatim>\<open>RunScenario\<close> at index \<open>j\<close>, as the call it makes;
  the loop ignores what the call returns.
\<close>

definition loopCall :: "Scale \<Rightarrow> int \<Rightarrow> int \<Rightarrow> op" where
  "loopCall scale uid j =
     (let ratio = f64_div (float64_of_int j) (float64_of_int (quota scale))
      in if ratio < readRatio scale then OpGet uid else OpStore uid (userNo j))"

text \<open>The inner loop from index \<open>j\<close> on: the calls of the goroutine with key \<open>uid\<close>.\<close>

function workerCalls :: "Scale \<Rightarrow> int \<Rightarrow> int \<Rightarrow> op list" where
  "workerCalls scale uid j =
     (if j < quota scale then loopCall scale uid j # workerCalls scale uid (j + 1) else [])"
  by pat_completeness auto
termination
  by (relation "measure (\<lambda>(scale, uid, j). nat (quota scale - j))") auto

declare workerCalls.simps [simp del]

text \<open>Is the call a read.\<close>

fun isRead :: "op \<Rightarrow> bool" where
  "isRead (OpGet _) = True"
| "isRead (OpStore _ _) = False"

text \<open>A workload of three calls on one goroutine, half of them reads.\<close>

definition threeOps :: Scale where
  "threeOps = \<lparr>name = ''three'', totalOps = 3, concurrency = 1, readRatio = 1 / 2, writeRatio = 1 / 2\<rparr>"

subsection \<open>Running the workers\<close>

text \<open>The calls of one goroutine on \<^verbatim>\<open>app.UserS\<close>, one after the other.\<close>

fun appRun :: "op list \<Rightarrow> App \<Rightarrow> App outcome" where
  "appRun [] a = ret a"
| "appRun (OpGet k # xs) a = andThen (UserS_Get k a) (\<lambda>(_, a'). appRun xs a')"
| "appRun (OpStore k r # xs) a = andThen (UserS_Store k r a) (\<lambda>a'. appRun xs a')"

text \<open>
  A \<^verbatim>\<open>sync.WaitGroup\<close> keeps its counter in 32 bits, as a signed number.
  \<^verbatim>\<open>Add(delta)\<close> adds the low 32 bits of \<open>delta\<close> to it and panics when the counter
  is negative afterwards; \<^verbatim>\<open>Done()\<close> is \<^verbatim>\<open>Add(-1)\<close>. No goroutine waits while the
  program calls \<^verbatim>\<open>Add\<close>, so the other panic of \<^verbatim>\<open>Add\<close> does not arise.
\<close>

definition wgAdd :: "32 word \<Rightarrow> int \<Rightarrow> panic + 32 word" where
  "wgAdd v delta =
     (let v' = v + word_of_int delta
      in if sint v' < 0 then Inl NegativeWaitGroup else Inr v')"

text \<open>
  \<^verbatim>\<open>Wait()\<close> returns once the counter is zero. Here every goroutine has finished when
  \<^verbatim>\<open>Wait\<close> is reached, so with another counter it blocks for ever and the runtime
  ends the program.
\<close>

definition wgWait :: "32 word \<Rightarrow> unit outcome" where
  "wgWait v = (if v = 0 then ret () else fail Deadlock)"

text \<open>
  The outer loop starts one goroutine per index \<open>i\<close> below the concurrency. The
  goroutines are run here one after the other in the order they are started, which is
  one of the schedules the Go runtime may choose; \<open>callsOf i\<close> are the calls of
  goroutine \<open>i\<close>, which ends with the deferred \<^verbatim>\<open>wg.Done()\<close>.
\<close>

function spawn ::
  "(int \<Rightarrow> op list) \<Rightarrow> int \<Rightarrow> int \<Rightarrow> 32 word \<Rightarrow> App \<Rightarrow> (32 word \<times> App) outcome" where
  "spawn callsOf c i wg app =
     (if i < c then
        andThen (appRun (callsOf i) app) (\<lambda>app'.
        case wgAdd wg (- 1) of
          Inl p \<Rightarrow> fail p
        | Inr wg' \<Rightarrow> spawn callsOf c (i + 1) wg' app')
      else ret (wg, app))"
  by pat_completeness auto
termination
  by (relation "measure (\<lambda>(callsOf, c, i, wg, app). nat (c - i))") auto

declare spawn.simps [simp del]

text \<open>
  \<^verbatim>\<open>var wg sync.WaitGroup\<close>, \<^verbatim>\<open>wg.Add(concurrency)\<close>, the outer loop and
  \<^verbatim>\<open>wg.Wait()\<close>.
\<close>

definition startWorkers :: "int \<Rightarrow> (int \<Rightarrow> op list) \<Rightarrow> App \<Rightarrow> App outcome" where
  "startWorkers c callsOf app =
     (case wgAdd 0 c of
        Inl p \<Rightarrow> fail p
      | Inr wg \<Rightarrow>
          andThen (spawn callsOf c 0 wg app) (\<lambda>(wg', app').
          andThen (wgWait wg') (\<lambda>_. ret app')))"

text \<open>\<^verbatim>\<open>RunScenario\<close> of \<^verbatim>\<open>main.go\<close>.\<close>

definition RunScenario :: "App \<Rightarrow> Scale \<Rightarrow> App outcome" where
  "RunScenario app scale =
     startWorkers (concurrency scale) (\<lambda>uid. workerCalls scale uid 0) app"

text \<open>
  The scenarios of \<^verbatim>\<open>unnamed/part_001\<close> have the body of \<^verbatim>\<open>RunScenario\<close> with
  constants in place of the fields of the scale; the constants are collected in a
  \<open>Scale\<close> here. The constant \<^verbatim>\<open>0.9\<close> becomes the nearest \<^verbatim>\<open>float64\<close>.
\<close>

definition heavyRead :: Scale where
  "heavyRead =
     \<lparr>name = '''', totalOps = 1000000, concurrency = 500, readRatio = round_f64 (9 / 10),
      writeRatio = 0\<rparr>"

definition heavyWrite :: Scale where
  "heavyWrite =
     \<lparr>name = '''', totalOps = 1000000, concurrency = 500, readRatio = 0,
      writeRatio = round_f64 (9 / 10)\<rparr>"

definition mixed :: Scale where
  "mixed =
     \<lparr>name = '''', totalOps = 10000000, concurrency = 5000, readRatio = 1 / 2,
      writeRatio = 0\<rparr>"

text \<open>
  The inner loop of \<^verbatim>\<open>ScenarioHeavyWrite\<close>: it stores while the ratio is below the
  write ratio and reads after that.
\<close>

definition loopCallW :: "Scale \<Rightarrow> int \<Rightarrow> int \<Rightarrow> op" where
  "loopCallW scale uid j =
     (if f64_div (float64_of_int j) (float64_of_int (quota scale)) < writeRatio scale
      then OpStore uid (userNo j) else OpGet uid)"

function workerCallsW :: "Scale \<Rightarrow> int \<Rightarrow> int \<Rightarrow> op list" where
  "workerCallsW scale uid j =
     (if j < quota scale then loopCallW scale uid j # workerCallsW scale uid (j + 1) else [])"
  by pat_completeness auto
termination
  by (relation "measure (\<lambda>(scale, uid, j). nat (quota scale - j))") auto

declare workerCallsW.simps [simp del]

definition ScenarioHeavyRead :: "App \<Rightarrow> App outcome" where
  "ScenarioHeavyRead app = startWorkers 500 (\<lambda>uid. workerCalls heavyRead uid 0) app"

definition ScenarioHeavyWrite :: "App \<Rightarrow> App outcome" where
  "ScenarioHeavyWrite app = startWorkers 500 (\<lambda>uid. workerCallsW heavyWrite uid 0) app"

definition ScenarioMixedReadWrite :: "App \<Rightarrow> App outcome" where
  "ScenarioMixedReadWrite app = startWorkers 5000 (\<lambda>uid. workerCalls mixed uid 0) app"

text \<open>
  The six closures that \<^verbatim>\<open>main\<close> of \<^verbatim>\<open>unnamed/part_001\<close> hands to
  \<^verbatim>\<open>runScenario\<close>: each creates its app and runs one scenario on it.
\<close>

definition onNewApp :: "bool \<Rightarrow> (App \<Rightarrow> App outcome) \<Rightarrow> unit outcome" where
  "onNewApp b scenario = andThen (CreateApp b) (\<lambda>app. andThen (scenario app) (\<lambda>_. ret ()))"

definition ScenarioSyncMapHeavyRead :: "unit outcome" where
  "ScenarioSyncMapHeavyRead = onNewApp True ScenarioHeavyRead"

definition ScenarioSyncMapHeavyWrite :: "unit outcome" where
  "ScenarioSyncMapHeavyWrite = onNewApp True ScenarioHeavyWrite"

definition ScenarioRWMutexHeavyRead :: "unit outcome" where
  "ScenarioRWMutexHeavyRead = onNewApp False ScenarioHeavyRead"

definition ScenarioRWMutexHeavyWrite :: "unit outcome" where
  "ScenarioRWMutexHeavyWrite = onNewApp False ScenarioHeavyWrite"

definition ScenarioSyncMapMixed :: "unit outcome" where
  "ScenarioSyncMapMixed = onNewApp True ScenarioMixedReadWrite"

definition ScenarioRWMutexMixed :: "unit outcome" where
  "ScenarioRWMutexMixed = onNewApp False ScenarioMixedReadWrite"

subsection \<open>The benchmark driver\<close>

text \<open>
  A \<^verbatim>\<open>time.Duration\<close> is a 64-bit count of nanoseconds: sums wrap around and the
  division truncates towards zero. The clock is outside the program: \<open>since i\<close> is
  what \<^verbatim>\<open>time.Since(start)\<close> returns in iteration \<open>i\<close>, and \<open>fmtDuration\<close> is the
  text that \<^verbatim>\<open>%v\<close> prints for a duration.
\<close>

definition Duration_div :: "64 word \<Rightarrow> int \<Rightarrow> 64 word" where
  "Duration_div d n = word_of_int (go_div (sint d) n)"

text \<open>The lines written to standard output, among the events.\<close>

fun stdout :: "event list \<Rightarrow> string list" where
  "stdout [] = []"
| "stdout (Stdout s # es) = s # stdout es"
| "stdout (_ # es) = stdout es"

text \<open>The loop of \<^verbatim>\<open>BenchmarkScenario\<close> in \<^verbatim>\<open>main.go\<close> from iteration \<open>i\<close> on.\<close>

function benchLoop :: "bool \<Rightarrow> Scale \<Rightarrow> (nat \<Rightarrow> 64 word) \<Rightarrow> nat \<Rightarrow> 64 word \<Rightarrow> (64 word) outcome" where
  "benchLoop isCacheSM' scale since i tot =
     (if i < 10 then
        andThen (CreateApp isCacheSM') (\<lambda>app.
        andThen (RunScenario app scale) (\<lambda>_.
        benchLoop isCacheSM' scale since (i + 1) (tot + since i)))
      else ret tot)"
  by pat_completeness auto
termination
  by (relation "measure (\<lambda>(b, scale, since, i, tot). 10 - i)") auto

declare benchLoop.simps [simp del]

definition BenchmarkScenario ::
  "(64 word \<Rightarrow> string) \<Rightarrow> (nat \<Rightarrow> 64 word) \<Rightarrow> string \<Rightarrow> bool \<Rightarrow> Scale \<Rightarrow> unit outcome" where
  "BenchmarkScenario fmtDuration since name' isCacheSM' scale =
     andThen (benchLoop isCacheSM' scale since 0 0) (\<lambda>tot.
     emit [Stdout (name' @ '' ('' @ name scale @ '') average time over 10 runs: '' @
                   fmtDuration (Duration_div tot 10) @ [CHR 0x0A])])"

text \<open>
  \<^verbatim>\<open>runScenario\<close> of \<^verbatim>\<open>unnamed/part_001\<close>; \<open>fn\<close> is what a call of the closure does.
\<close>

function runLoop :: "unit outcome \<Rightarrow> (nat \<Rightarrow> 64 word) \<Rightarrow> nat \<Rightarrow> 64 word \<Rightarrow> (64 word) outcome" where
  "runLoop fn since i tot =
     (if i < 10 then andThen fn (\<lambda>_. runLoop fn since (i + 1) (tot + since i))
      else ret tot)"
  by pat_completeness auto
termination
  by (relation "measure (\<lambda>(fn, since, i, tot). 10 - i)") auto

declare runLoop.simps [simp del]

definition runScenario ::
  "(64 word \<Rightarrow> string) \<Rightarrow> (nat \<Rightarrow> 64 word) \<Rightarrow> string \<Rightarrow> unit outcome \<Rightarrow> (64 word) outcome" where
  "runScenario fmtDuration since name' fn =
     andThen (runLoop fn since 0 0) (\<lambda>tot.
     let avg = Duration_div tot 10
     in andThen (emit [Stdout (name' @ '' average time over '' @ showInt 10 @ '' runs: '' @
                               fmtDuration avg @ [CHR 0x0A])]) (\<lambda>_.
        ret avg))"

text \<open>The first benchmark of \<^verbatim>\<open>main\<close> in \<^verbatim>\<open>main.go\<close>, on the small scale.\<close>

definition smallHeavyRead :: Scale where
  "smallHeavyRead =
     \<lparr>name = ''small'', totalOps = 10000, concurrency = 50, readRatio = round_f64 (9 / 10),
      writeRatio = round_f64 (1 / 10)\<rparr>"

text \<open>An app whose server, service and repository are in place and set up.\<close>

definition appReady :: "App \<Rightarrow> bool" where
  "appReady a = (case appRepo a of None \<Rightarrow> False | Some r \<Rightarrow> initialised r)"

text \<open>The app that \<^verbatim>\<open>CreateApp\<close> returns.\<close>

definition newApp :: "bool \<Rightarrow> App" where
  "newApp b =
     \<lparr>app_o = True, buf = [appIsStarted], app_logger = Some Logger,
      UserS = \<lparr>service = Some \<lparr>repo = Some (newUserRepo b)\<rparr>\<rparr>, app_isCacheSM = b\<rparr>"

text \<open>The line that \<^verbatim>\<open>BenchmarkScenario\<close> and \<^verbatim>\<open>runScenario\<close> print.\<close>

definition averageLine :: "string \<Rightarrow> string \<Rightarrow> string" where
  "averageLine label duration =
     label @ '' average time over 10 runs: '' @ duration @ [CHR 0x0A]"

section \<open>Properties of the repository\<close>

subsection \<open>Calls on an initialised repository\<close>

lemmas prog_defs = ret_def fail_def emit_def andThen_def map_lookup_def map_assign_def logPrintln_def

lemma getFromCache_initialised:
  assumes "initialised u"
  shows "getFromCache k u =
    ((if isCacheSM u then [SMLoad k] else [RLock, RwmRead k, RUnlock]) @
       [Println (if activeCache u k = None then notFoundInCache else foundInCache)],
     Inr (case activeCache u k of None \<Rightarrow> (User_zero, False) | Some v \<Rightarrow> (v, True)))"
  using assms
  by (auto simp: getFromCache_def initialised_def activeCache_def prog_defs split: option.splits)

lemma getFromCache_no_db: "\<not> list_ex touchesDb (fst (getFromCache k u))"
  by (auto simp: getFromCache_def prog_defs split: option.splits)

lemma storeInCache_initialised:
  assumes "initialised u"
  shows "storeInCache k r u =
    ((if isCacheSM u then [SMStore k r] else [WLock, RwmWrite k r, WUnlock]),
     Inr (cachePut k r u))"
  using assms
  by (auto simp: storeInCache_def initialised_def cachePut_def prog_defs split: option.splits)

lemma cachePut_simps [simp]:
  "db (cachePut k r u) = db u"
  "isCacheSM (cachePut k r u) = isCacheSM u"
  "logger (cachePut k r u) = logger u"
  "once (cachePut k r u) = once u"
  by (simp_all add: cachePut_def)

lemma initialised_cachePut [simp]: "initialised u \<Longrightarrow> initialised (cachePut k r u)"
  by (simp add: initialised_def cachePut_def)

lemma activeCache_cachePut [simp]:
  "initialised u \<Longrightarrow> activeCache (cachePut k r u) = (activeCache u)(k \<mapsto> r)"
  by (auto simp: initialised_def cachePut_def activeCache_def map_lookup_def)

lemma cacheAgrees_cachePut:
  "initialised u \<Longrightarrow> cacheAgrees u \<Longrightarrow> map_lookup (db u) k = Some r \<Longrightarrow> cacheAgrees (cachePut k r u)"
  by (simp add: cacheAgrees_def)

lemma unusedCacheEmpty_cachePut [simp]:
  "initialised u \<Longrightarrow> unusedCacheEmpty (cachePut k r u) = unusedCacheEmpty u"
  by (auto simp: initialised_def cachePut_def unusedCacheEmpty_def)



lemma Get_initialised:
  assumes "initialised u"
  shows "Get k u =
    (case activeCache u k of
       Some v \<Rightarrow> (fst (getFromCache k u), Inr ((v, True), u))
     | None \<Rightarrow>
        (case map_lookup (db u) k of
           None \<Rightarrow> (fst (getFromCache k u) @ [DbLock, DbRead k, DbUnlock, Println notFoundInDB],
                     Inr ((User_zero, False), u))
         | Some r \<Rightarrow> (fst (getFromCache k u) @ [DbLock, DbRead k, DbUnlock] @
                        fst (storeInCache k r u) @ [Println foundInDB],
                      Inr ((r, True), cachePut k r u))))"
proof -
  have lg: "logger u \<noteq> None"
    using assms by (simp add: initialised_def)
  show ?thesis
    using lg
    by (auto simp: Get_def getFromCache_initialised [OF assms] storeInCache_initialised [OF assms]
        prog_defs split: option.splits)
qed

lemma Get_p0_initialised:
  assumes "initialised u"
  shows "Get_p0 k u =
    (case activeCache u k of
       Some v \<Rightarrow> (fst (getFromCache k u), Inr ((v, True), u))
     | None \<Rightarrow>
        (case map_lookup (db u) k of
           None \<Rightarrow> (fst (getFromCache k u) @ [DbRead k, Println notFoundInDB],
                     Inr ((User_zero, False), u))
         | Some r \<Rightarrow> (fst (getFromCache k u) @ [DbRead k] @
                        fst (storeInCache k r u) @ [Println foundInDB],
                      Inr ((r, True), cachePut k r u))))"
proof -
  have lg: "logger u \<noteq> None"
    using assms by (simp add: initialised_def)
  show ?thesis
    using lg
    by (auto simp: Get_p0_def getFromCache_initialised [OF assms] storeInCache_initialised [OF assms]
        prog_defs split: option.splits)
qed

lemma initialised_dbPut [simp]: "initialised u \<Longrightarrow> initialised (dbPut k r u)"
  by (simp add: initialised_def dbPut_def)

lemma dbPut_simps [simp]:
  "isCacheSM (dbPut k r u) = isCacheSM u"
  "logger (dbPut k r u) = logger u"
  "once (dbPut k r u) = once u"
  "activeCache (dbPut k r u) = activeCache u"
  "initialised u \<Longrightarrow> map_lookup (db (dbPut k r u)) = (map_lookup (db u))(k \<mapsto> r)"
  by (auto simp: dbPut_def activeCache_def initialised_def map_lookup_def)

lemma unusedCacheEmpty_dbPut [simp]:
  "unusedCacheEmpty (dbPut k r u) = unusedCacheEmpty u"
  by (auto simp: dbPut_def unusedCacheEmpty_def)

lemma Store_initialised:
  assumes "initialised u"
  shows "Store k r u =
    ([DbLock, DbWrite k r, DbUnlock] @ fst (storeInCache k r (dbPut k r u)),
     Inr (cachePut k r (dbPut k r u)))"
proof -
  have d: "db u \<noteq> None"
    using assms by (simp add: initialised_def)
  have i: "initialised (dbPut k r u)"
    using assms by simp
  from d have a: "map_assign (db u) k r = Inr (db (dbPut k r u))"
    by (auto simp: map_assign_def dbPut_def)
  have b: "u\<lparr>db := db (dbPut k r u)\<rparr> = dbPut k r u"
    by (simp add: dbPut_def)
  show ?thesis
    by (simp add: Store_def a b storeInCache_initialised [OF i] ret_def emit_def andThen_def)
qed

lemma Store_p0_initialised:
  assumes "initialised u"
  shows "Store_p0 k r u =
    ([DbWrite k r] @ fst (storeInCache k r (dbPut k r u)),
     Inr (cachePut k r (dbPut k r u)))"
proof -
  have d: "db u \<noteq> None"
    using assms by (simp add: initialised_def)
  have i: "initialised (dbPut k r u)"
    using assms by simp
  from d have a: "map_assign (db u) k r = Inr (db (dbPut k r u))"
    by (auto simp: map_assign_def dbPut_def)
  have b: "u\<lparr>db := db (dbPut k r u)\<rparr> = dbPut k r u"
    by (simp add: dbPut_def)
  show ?thesis
    by (simp add: Store_p0_def a b storeInCache_initialised [OF i] ret_def emit_def andThen_def)
qed

lemma cacheAgrees_Store:
  "initialised u \<Longrightarrow> cacheAgrees u \<Longrightarrow> cacheAgrees (cachePut k r (dbPut k r u))"
  by (simp add: cacheAgrees_def)

lemma initialised_newUserRepo [simp]: "initialised (newUserRepo b)"
  by (simp add: newUserRepo_def Init_def doInit_def UserRepo_zero_def initialised_def)

lemma step_effect: "initialised u \<Longrightarrow> snd (step x u) = Inr (effect x u)"
  by (cases x)
    (simp_all add: Get_initialised Store_initialised andThen_def ret_def split: option.splits)

lemma step_p0_effect: "initialised u \<Longrightarrow> snd (step_p0 x u) = Inr (effect x u)"
  by (cases x)
    (simp_all add: Get_p0_initialised Store_p0_initialised andThen_def ret_def split: option.splits)

lemma initialised_effect: "initialised u \<Longrightarrow> initialised (snd (effect x u))"
  by (cases x) (auto split: option.splits)

lemma isCacheSM_effect: "isCacheSM (snd (effect x u)) = isCacheSM u"
  by (cases x) (auto split: option.splits)

lemma snd_effects_Cons: "snd (effects (x # xs) u) = snd (effects xs (snd (effect x u)))"
  by (simp split: prod.splits)

lemma fst_effects_Cons:
  "fst (effects (x # xs) u) = fst (effect x u) # fst (effects xs (snd (effect x u)))"
  by (simp split: prod.splits)

lemma initialised_effects: "initialised u \<Longrightarrow> initialised (snd (effects xs u))"
proof (induction xs arbitrary: u)
  case Nil
  then show ?case by simp
next
  case (Cons x xs)
  from Cons.IH [OF initialised_effect [OF Cons.prems, of x]]
  show ?case by (simp only: snd_effects_Cons)
qed

lemma run_effects: "initialised u \<Longrightarrow> snd (run xs u) = Inr (effects xs u)"
proof (induction xs arbitrary: u)
  case Nil
  show ?case by (simp add: ret_def)
next
  case (Cons x xs)
  obtain r u' where e: "effect x u = (r, u')"
    by (cases "effect x u")
  have i: "initialised u'"
    using initialised_effect [OF Cons.prems, of x] e by simp
  obtain es where s: "step x u = (es, Inr (r, u'))"
    using step_effect [OF Cons.prems, of x] e by (cases "step x u") simp
  obtain es' where r: "run xs u' = (es', Inr (effects xs u'))"
    using Cons.IH [OF i] by (cases "run xs u'") simp
  show ?case
    by (simp add: s r e andThen_def ret_def split: prod.splits)
qed

lemma run_p0_effects: "initialised u \<Longrightarrow> snd (run_p0 xs u) = Inr (effects xs u)"
proof (induction xs arbitrary: u)
  case Nil
  show ?case by (simp add: ret_def)
next
  case (Cons x xs)
  obtain r u' where e: "effect x u = (r, u')"
    by (cases "effect x u")
  have i: "initialised u'"
    using initialised_effect [OF Cons.prems, of x] e by simp
  obtain es where s: "step_p0 x u = (es, Inr (r, u'))"
    using step_p0_effect [OF Cons.prems, of x] e by (cases "step_p0 x u") simp
  obtain es' where r: "run_p0 xs u' = (es', Inr (effects xs u'))"
    using Cons.IH [OF i] by (cases "run_p0 xs u'") simp
  show ?case
    by (simp add: s r e andThen_def ret_def split: prod.splits)
qed

text \<open>An invariant of single calls is one of sequences.\<close>

lemma effects_invariant:
  assumes "P u" and "\<And>x v. x \<in> set xs \<Longrightarrow> P v \<Longrightarrow> P (snd (effect x v))"
  shows "P (snd (effects xs u))"
  using assms
proof (induction xs arbitrary: u)
  case Nil
  then show ?case by simp
next
  case (Cons x xs)
  have "P (snd (effect x u))"
    using Cons.prems by simp
  then have "P (snd (effects xs (snd (effect x u))))"
    using Cons.IH Cons.prems(2) by simp
  then show ?case
    by (simp only: snd_effects_Cons)
qed

section \<open>The claims\<close>

text \<open>
  Claim C1. On a repository that \<^verbatim>\<open>Init\<close> has set up, \<^verbatim>\<open>Get\<close> starts with the cache
  lookup. When the lookup reports a hit, \<^verbatim>\<open>Get\<close> returns that record with
  \<^verbatim>\<open>found = true\<close>, performs no event on the database map or its mutex, and leaves
  the repository as it was. When the lookup misses and the database map has no entry,
  \<^verbatim>\<open>Get\<close> reads the database map and returns \<^verbatim>\<open>found = false\<close>. When the lookup
  misses and the database map has a record, \<^verbatim>\<open>Get\<close> writes that record into the cache
  and then returns it with \<^verbatim>\<open>found = true\<close>. The same holds for \<^verbatim>\<open>Get\<close> of
  \<^verbatim>\<open>unnamed/part_000\<close>, which reads the database map without the mutex.
\<close>

theorem Get_read_through:
  assumes "initialised u"
  shows "\<exists>es v ok. getFromCache k u = (es, Inr (v, ok)) \<and>
     (ok \<longrightarrow> Get k u = (es, Inr ((v, True), u)) \<and> \<not> list_ex touchesDb (fst (Get k u)) \<and>
             Get_p0 k u = (es, Inr ((v, True), u)) \<and> \<not> list_ex touchesDb (fst (Get_p0 k u))) \<and>
     (\<not> ok \<and> map_lookup (db u) k = None \<longrightarrow>
        Get k u = (es @ [DbLock, DbRead k, DbUnlock, Println notFoundInDB],
                   Inr ((User_zero, False), u)) \<and>
        Get_p0 k u = (es @ [DbRead k, Println notFoundInDB], Inr ((User_zero, False), u))) \<and>
     (\<forall>r. \<not> ok \<and> map_lookup (db u) k = Some r \<longrightarrow>
        (\<exists>es' u'. storeInCache k r u = (es', Inr u') \<and> activeCache u' k = Some r \<and>
           db u' = db u \<and>
           Get k u = (es @ [DbLock, DbRead k, DbUnlock] @ es' @ [Println foundInDB],
                      Inr ((r, True), u')) \<and>
           Get_p0 k u = (es @ [DbRead k] @ es' @ [Println foundInDB], Inr ((r, True), u'))))"
proof (cases "activeCache u k")
  case None
  show ?thesis
    using getFromCache_no_db [of k u]
    by (auto simp: Get_initialised [OF assms] Get_p0_initialised [OF assms] None
        getFromCache_initialised [OF assms] storeInCache_initialised [OF assms] assms)
next
  case (Some v)
  show ?thesis
    using getFromCache_no_db [of k u]
    by (auto simp: Get_initialised [OF assms] Get_p0_initialised [OF assms] Some
        getFromCache_initialised [OF assms])
qed

theorem Get_read_through_witness:
  "initialised (newUserRepo True) \<and>
   Get 1 (newUserRepo True) =
     ([SMLoad 1, Println notFoundInCache, DbLock, DbRead 1, DbUnlock, Println notFoundInDB],
      Inr ((User_zero, False), newUserRepo True)) \<and>
   initialised (dbPut 1 ivan (newUserRepo False)) \<and>
   Get 1 (dbPut 1 ivan (newUserRepo False)) =
     ([RLock, RwmRead 1, RUnlock, Println notFoundInCache, DbLock, DbRead 1, DbUnlock,
       WLock, RwmWrite 1 ivan, WUnlock, Println foundInDB],
      Inr ((ivan, True), cachePut 1 ivan (dbPut 1 ivan (newUserRepo False)))) \<and>
   initialised (cachePut 1 ivan (newUserRepo True)) \<and>
   Get 1 (cachePut 1 ivan (newUserRepo True)) =
     ([SMLoad 1, Println foundInCache], Inr ((ivan, True), cachePut 1 ivan (newUserRepo True)))"
proof -
  have i1: "initialised (newUserRepo True)"
    and i2: "initialised (dbPut 1 ivan (newUserRepo False))"
    and i3: "initialised (cachePut 1 ivan (newUserRepo True))"
    by simp_all
  have a: "activeCache (newUserRepo b) 1 = None" "map_lookup (db (newUserRepo b)) 1 = None"
    "isCacheSM (newUserRepo b) = b" for b
    by (simp_all add: newUserRepo_def Init_def doInit_def UserRepo_zero_def activeCache_def
        map_lookup_def)
  have "Get 1 (newUserRepo True) =
     ([SMLoad 1, Println notFoundInCache, DbLock, DbRead 1, DbUnlock, Println notFoundInDB],
      Inr ((User_zero, False), newUserRepo True))"
    using Get_read_through [OF i1, of 1]
    by (auto simp: a getFromCache_initialised)
  moreover have "Get 1 (dbPut 1 ivan (newUserRepo False)) =
     ([RLock, RwmRead 1, RUnlock, Println notFoundInCache, DbLock, DbRead 1, DbUnlock,
       WLock, RwmWrite 1 ivan, WUnlock, Println foundInDB],
      Inr ((ivan, True), cachePut 1 ivan (dbPut 1 ivan (newUserRepo False))))"
    using Get_read_through [OF i2, of 1]
    by (auto simp: a getFromCache_initialised storeInCache_initialised)
  moreover have "Get 1 (cachePut 1 ivan (newUserRepo True)) =
     ([SMLoad 1, Println foundInCache], Inr ((ivan, True), cachePut 1 ivan (newUserRepo True)))"
    using Get_read_through [OF i3, of 1]
    by (auto simp: a getFromCache_initialised)
  ultimately show ?thesis
    using i1 i2 i3 by simp
qed

lemma getFromCache_found:
  "snd (getFromCache k u) = Inr (v, ok) \<Longrightarrow>
     (ok \<longrightarrow> activeCache u k = Some v) \<and> (\<not> ok \<longrightarrow> activeCache u k = None \<and> v = User_zero)"
  by (auto simp: getFromCache_def activeCache_def prog_defs split: if_splits option.splits)

lemma storeInCache_flag: "storeInCache k r u = (es, Inr u') \<Longrightarrow> isCacheSM u' = isCacheSM u"
  by (auto simp: storeInCache_def prog_defs split: if_splits option.splits)

lemma Get_result:
  assumes "snd (Get k u) = Inr ((v, ok), u')"
  shows "isCacheSM u' = isCacheSM u \<and>
         (\<not> ok \<longrightarrow> v = User_zero \<and> activeCache u k = None \<and> map_lookup (db u) k = None \<and> u' = u)"
proof (cases "getFromCache k u")
  case (Pair es c)
  show ?thesis
  proof (cases c)
    case (Inl p)
    with Pair assms show ?thesis
      by (simp add: Get_def andThen_def)
  next
    case (Inr vo)
    obtain w hit where vo: "vo = (w, hit)"
      by (cases vo)
    have g: "snd (getFromCache k u) = Inr (w, hit)"
      using Pair Inr vo by simp
    show ?thesis
    proof (cases hit)
      case True
      with Pair Inr vo assms show ?thesis
        by (simp add: Get_def andThen_def ret_def)
    next
      case False
      with Pair Inr vo assms getFromCache_found [OF g] show ?thesis
        by (cases "storeInCache k (the (map_lookup (db u) k)) u")
          (auto simp: Get_def andThen_def ret_def emit_def fail_def logPrintln_def
            split: option.splits sum.splits prod.splits dest: storeInCache_flag)
    qed
  qed
qed

lemma Get_p0_result:
  assumes "snd (Get_p0 k u) = Inr ((v, ok), u')"
  shows "isCacheSM u' = isCacheSM u \<and>
         (\<not> ok \<longrightarrow> v = User_zero \<and> activeCache u k = None \<and> map_lookup (db u) k = None \<and> u' = u)"
proof (cases "getFromCache k u")
  case (Pair es c)
  show ?thesis
  proof (cases c)
    case (Inl p)
    with Pair assms show ?thesis
      by (simp add: Get_p0_def andThen_def)
  next
    case (Inr vo)
    obtain w hit where vo: "vo = (w, hit)"
      by (cases vo)
    have g: "snd (getFromCache k u) = Inr (w, hit)"
      using Pair Inr vo by simp
    show ?thesis
    proof (cases hit)
      case True
      with Pair Inr vo assms show ?thesis
        by (simp add: Get_p0_def andThen_def ret_def)
    next
      case False
      with Pair Inr vo assms getFromCache_found [OF g] show ?thesis
        by (cases "storeInCache k (the (map_lookup (db u) k)) u")
          (auto simp: Get_p0_def andThen_def ret_def emit_def fail_def logPrintln_def
            split: option.splits sum.splits prod.splits dest: storeInCache_flag)
    qed
  qed
qed

lemma Store_flag: "snd (Store k r u) = Inr u' \<Longrightarrow> isCacheSM u' = isCacheSM u"
  by (cases "storeInCache k r (u\<lparr>db := Some ((the (db u))(k \<mapsto> r))\<rparr>)")
    (auto simp: Store_def prog_defs split: option.splits sum.splits dest: storeInCache_flag)

lemma step_flag: "snd (step x u) = Inr (r, u') \<Longrightarrow> isCacheSM u' = isCacheSM u"
proof (cases x)
  case (OpGet k)
  assume a: "snd (step x u) = Inr (r, u')"
  then obtain v ok where "snd (Get k u) = Inr ((v, ok), u')"
    unfolding OpGet
    by (cases "Get k u") (auto simp: andThen_def ret_def split: sum.splits)
  then show ?thesis
    using Get_result by blast
next
  case (OpStore k w)
  assume a: "snd (step x u) = Inr (r, u')"
  then have "snd (Store k w u) = Inr u'"
    unfolding OpStore
    by (cases "Store k w u") (auto simp: andThen_def ret_def split: sum.splits)
  then show ?thesis
    by (rule Store_flag)
qed

text \<open>
  Claim C9. Whenever \<^verbatim>\<open>Get\<close> returns \<^verbatim>\<open>found = false\<close>, in any state of the
  repository, the record it returns is the zero value \<^verbatim>\<open>User{}\<close>, whose name is the
  empty string; the cache in use and the database map both had no entry for the key, and
  the repository is unchanged. The same holds for \<^verbatim>\<open>Get\<close> of \<^verbatim>\<open>unnamed/part_000\<close>.
\<close>

theorem Get_not_found_zero:
  assumes "snd (Get k u) = Inr ((v, False), u') \<or> snd (Get_p0 k u) = Inr ((v, False), u')"
  shows "v = User_zero \<and> Name v = '''' \<and> activeCache u k = None \<and>
         map_lookup (db u) k = None \<and> u' = u"
  using assms Get_result [of k u v False u'] Get_p0_result [of k u v False u']
  by (auto simp: User_zero_def)

theorem Get_not_found_zero_witness:
  "snd (Get 1 (newUserRepo True)) = Inr ((User_zero, False), newUserRepo True) \<and>
   snd (Get_p0 1 (newUserRepo False)) = Inr ((User_zero, False), newUserRepo False) \<and>
   Name User_zero = ''''"
proof -
  have a: "activeCache (newUserRepo b) 1 = None" "map_lookup (db (newUserRepo b)) 1 = None" for b
    by (simp_all add: newUserRepo_def Init_def doInit_def UserRepo_zero_def activeCache_def
        map_lookup_def)
  have g: "snd (Get 1 (newUserRepo True)) = Inr ((User_zero, False), newUserRepo True)"
    by (simp add: Get_initialised a)
  have g0: "snd (Get_p0 1 (newUserRepo False)) = Inr ((User_zero, False), newUserRepo False)"
    by (simp add: Get_p0_initialised a)
  from Get_not_found_zero [of 1 "newUserRepo True" User_zero "newUserRepo True"] g g0
  show ?thesis by simp
qed

lemma keeps_entry:
  assumes "\<forall>r'. x \<noteq> OpStore k r'" and "initialised v \<and> activeCache v k = Some r"
  shows "initialised (snd (effect x v)) \<and> activeCache (snd (effect x v)) k = Some r"
  using assms by (cases x) (auto split: option.splits)

lemma keeps_absent:
  assumes "\<forall>r'. x \<noteq> OpStore k r'"
    and "initialised v \<and> activeCache v k = None \<and> map_lookup (db v) k = None"
  shows "initialised (snd (effect x v)) \<and> activeCache (snd (effect x v)) k = None \<and>
         map_lookup (db (snd (effect x v))) k = None"
  using assms by (cases x) (auto split: option.splits)

text \<open>
  Claim C2. On a repository that \<^verbatim>\<open>Init\<close> has set up, \<^verbatim>\<open>Store(K, R)\<close> returns after
  it has written the database map, under its mutex, and then the cache, in this order,
  and both hold \<open>R\<close> under \<open>K\<close> when it returns. A \<^verbatim>\<open>Get(K)\<close> that follows, directly
  or after calls none of which is a \<^verbatim>\<open>Store\<close> to \<open>K\<close>, returns \<open>(R, true)\<close>. The same
  holds in \<^verbatim>\<open>unnamed/part_000\<close>, where the database map has no mutex.
\<close>

theorem Store_then_Get:
  assumes "initialised u" and "\<forall>r'. OpStore k r' \<notin> set ops"
  shows "\<exists>u1. Store k r u =
           ([DbLock, DbWrite k r, DbUnlock] @
              (if isCacheSM u then [SMStore k r] else [WLock, RwmWrite k r, WUnlock]), Inr u1) \<and>
         Store_p0 k r u =
           ([DbWrite k r] @
              (if isCacheSM u then [SMStore k r] else [WLock, RwmWrite k r, WUnlock]), Inr u1) \<and>
         map_lookup (db u1) k = Some r \<and> activeCache u1 k = Some r \<and>
         (\<exists>es rs u2. run ops u1 = (es, Inr (rs, u2)) \<and>
            snd (Get k u2) = Inr ((r, True), u2)) \<and>
         (\<exists>es rs u2. run_p0 ops u1 = (es, Inr (rs, u2)) \<and>
            snd (Get_p0 k u2) = Inr ((r, True), u2))"
proof -
  let ?u1 = "cachePut k r (dbPut k r u)"
  have i1: "initialised ?u1" and a1: "activeCache ?u1 k = Some r"
    and d1: "map_lookup (db ?u1) k = Some r"
    using assms(1) by simp_all
  let ?u2 = "snd (effects ops ?u1)"
  have inv: "initialised ?u2 \<and> activeCache ?u2 k = Some r"
    using assms(2) i1 a1
    by (intro effects_invariant [where P = "\<lambda>v. initialised v \<and> activeCache v k = Some r"]
        keeps_entry) auto
  have g: "snd (Get k ?u2) = Inr ((r, True), ?u2)"
    and g0: "snd (Get_p0 k ?u2) = Inr ((r, True), ?u2)"
    using inv by (simp_all add: Get_initialised Get_p0_initialised)
  have r: "\<exists>es rs. run ops ?u1 = (es, Inr (rs, ?u2))"
    using run_effects [OF i1, of ops] by (cases "run ops ?u1") (auto simp: prod_eq_iff)
  have r0: "\<exists>es rs. run_p0 ops ?u1 = (es, Inr (rs, ?u2))"
    using run_p0_effects [OF i1, of ops] by (cases "run_p0 ops ?u1") (auto simp: prod_eq_iff)
  have s: "Store k r u =
           ([DbLock, DbWrite k r, DbUnlock] @
              (if isCacheSM u then [SMStore k r] else [WLock, RwmWrite k r, WUnlock]), Inr ?u1)"
    and s0: "Store_p0 k r u =
           ([DbWrite k r] @
              (if isCacheSM u then [SMStore k r] else [WLock, RwmWrite k r, WUnlock]), Inr ?u1)"
    using assms(1)
    by (simp_all add: Store_initialised Store_p0_initialised storeInCache_initialised)
  show ?thesis
    using s s0 d1 a1 r r0 g g0 by blast
qed

lemma newUserRepo_fields:
  "isCacheSM (newUserRepo b) = b"
  "activeCache (newUserRepo b) = Map.empty"
  "map_lookup (db (newUserRepo b)) = Map.empty"
  by (auto simp: newUserRepo_def Init_def doInit_def UserRepo_zero_def activeCache_def
      map_lookup_def)

lemma newUserRepo_maps:
  "cacheSM (newUserRepo b) = Map.empty"
  "cacheRWM (newUserRepo b) = Some Map.empty"
  "db (newUserRepo b) = Some Map.empty"
  by (auto simp: newUserRepo_def Init_def doInit_def UserRepo_zero_def)

theorem Store_then_Get_witness:
  "initialised (newUserRepo False) \<and> (\<forall>r'. OpStore 1 r' \<notin> set [OpGet 1, OpStore 2 User_zero]) \<and>
   (\<exists>u1. Store 1 ivan (newUserRepo False) =
           ([DbLock, DbWrite 1 ivan, DbUnlock, WLock, RwmWrite 1 ivan, WUnlock], Inr u1) \<and>
         (\<exists>es rs u2. run [OpGet 1, OpStore 2 User_zero] u1 = (es, Inr (rs, u2)) \<and>
            snd (Get 1 u2) = Inr ((ivan, True), u2)))"
proof -
  have i: "initialised (newUserRepo False)"
    by simp
  have n: "\<forall>r'. OpStore 1 r' \<notin> set [OpGet 1, OpStore 2 User_zero]"
    by simp
  from Store_then_Get [OF i n, of ivan] i n show ?thesis
    by (simp add: newUserRepo_fields) blast
qed

text \<open>
  Claim C4. On a freshly built repository, \<^verbatim>\<open>Get(K)\<close> returns \<^verbatim>\<open>found = false\<close>, and
  still does after any calls none of which is a \<^verbatim>\<open>Store\<close> to \<open>K\<close>. The absence is
  not an error: on a repository that \<^verbatim>\<open>Init\<close> has set up, \<^verbatim>\<open>Get\<close> and \<^verbatim>\<open>Store\<close>
  always return, without a panic, and so does every sequence of them on a fresh
  repository. The same holds in \<^verbatim>\<open>unnamed/part_000\<close>.
\<close>

theorem Get_miss_on_fresh:
  "((\<forall>r. OpStore k r \<notin> set ops) \<longrightarrow>
      (\<exists>es rs u. run ops (newUserRepo b) = (es, Inr (rs, u)) \<and>
         snd (Get k u) = Inr ((User_zero, False), u)) \<and>
      (\<exists>es rs u. run_p0 ops (newUserRepo b) = (es, Inr (rs, u)) \<and>
         snd (Get_p0 k u) = Inr ((User_zero, False), u))) \<and>
   (initialised v \<longrightarrow>
      (\<exists>es x v'. Get k v = (es, Inr (x, v')) \<and> initialised v') \<and>
      (\<exists>es v'. Store k r v = (es, Inr v') \<and> initialised v') \<and>
      (\<exists>es x v'. Get_p0 k v = (es, Inr (x, v')) \<and> initialised v') \<and>
      (\<exists>es v'. Store_p0 k r v = (es, Inr v') \<and> initialised v')) \<and>
   (\<exists>es rs u. run xs (newUserRepo b) = (es, Inr (rs, u))) \<and>
   (\<exists>es rs u. run_p0 xs (newUserRepo b) = (es, Inr (rs, u)))"
proof -
  have total: "\<exists>es rs. run ys (newUserRepo b) = (es, Inr (rs, snd (effects ys (newUserRepo b))))"
    for ys
    using run_effects [of "newUserRepo b" ys]
    by (cases "run ys (newUserRepo b)") (auto simp: prod_eq_iff)
  have total0: "\<exists>es rs. run_p0 ys (newUserRepo b) = (es, Inr (rs, snd (effects ys (newUserRepo b))))"
    for ys
    using run_p0_effects [of "newUserRepo b" ys]
    by (cases "run_p0 ys (newUserRepo b)") (auto simp: prod_eq_iff)
  let ?u = "snd (effects ops (newUserRepo b))"
  have miss: "snd (Get k ?u) = Inr ((User_zero, False), ?u) \<and>
      snd (Get_p0 k ?u) = Inr ((User_zero, False), ?u)"
    if n: "\<forall>r. OpStore k r \<notin> set ops"
  proof -
    have "initialised ?u \<and> activeCache ?u k = None \<and> map_lookup (db ?u) k = None"
      using n
      by (intro effects_invariant [where P = "\<lambda>v. initialised v \<and> activeCache v k = None \<and>
            map_lookup (db v) k = None"] keeps_absent) (auto simp: newUserRepo_fields)
    then show ?thesis
      by (simp add: Get_initialised Get_p0_initialised)
  qed
  have single: "(\<exists>es x v'. Get k v = (es, Inr (x, v')) \<and> initialised v') \<and>
      (\<exists>es v'. Store k r v = (es, Inr v') \<and> initialised v') \<and>
      (\<exists>es x v'. Get_p0 k v = (es, Inr (x, v')) \<and> initialised v') \<and>
      (\<exists>es v'. Store_p0 k r v = (es, Inr v') \<and> initialised v')" if "initialised v"
    using that
    by (auto simp: Get_initialised Get_p0_initialised Store_initialised Store_p0_initialised
        split: option.splits)
  show ?thesis
    using total total0 miss single by blast
qed

theorem Get_miss_on_fresh_witness:
  "(\<forall>r. OpStore 1 r \<notin> set [OpStore 2 ivan, OpGet 1, OpGet 2]) \<and>
   initialised (newUserRepo True) \<and>
   (\<exists>es rs u. run [OpStore 2 ivan, OpGet 1, OpGet 2] (newUserRepo True) = (es, Inr (rs, u)) \<and>
      snd (Get 1 u) = Inr ((User_zero, False), u)) \<and>
   (\<exists>es x v'. Get 1 (newUserRepo True) = (es, Inr (x, v'))) \<and>
   (\<exists>es v'. Store 1 ivan (newUserRepo True) = (es, Inr v'))"
proof -
  have n: "\<forall>r. OpStore 1 r \<notin> set [OpStore 2 ivan, OpGet 1, OpGet 2]"
    by simp
  have i: "initialised (newUserRepo True)"
    by simp
  from Get_miss_on_fresh [of 1 "[OpStore 2 ivan, OpGet 1, OpGet 2]" True "newUserRepo True" ivan]
    n i
  show ?thesis by blast
qed

lemma effect_related:
  assumes "initialised u1" "initialised u2" "db u1 = db u2" "activeCache u1 = activeCache u2"
  shows "fst (effect x u1) = fst (effect x u2) \<and>
    initialised (snd (effect x u1)) \<and> initialised (snd (effect x u2)) \<and>
    db (snd (effect x u1)) = db (snd (effect x u2)) \<and>
    activeCache (snd (effect x u1)) = activeCache (snd (effect x u2))"
proof -
  have d: "db (dbPut k r u1) = db (dbPut k r u2)" for k r
    using assms(3) by (simp add: dbPut_def)
  show ?thesis
    using assms d by (cases x) (auto split: option.splits)
qed

lemma effects_related:
  assumes "initialised u1" "initialised u2" "db u1 = db u2" "activeCache u1 = activeCache u2"
  shows "fst (effects xs u1) = fst (effects xs u2) \<and>
    db (snd (effects xs u1)) = db (snd (effects xs u2)) \<and>
    activeCache (snd (effects xs u1)) = activeCache (snd (effects xs u2))"
  using assms
proof (induction xs arbitrary: u1 u2)
  case Nil
  then show ?case by simp
next
  case (Cons x xs)
  from effect_related [OF Cons.prems, of x] Cons.IH [of "snd (effect x u1)" "snd (effect x u2)"]
  show ?case
    by (simp only: fst_effects_Cons snd_effects_Cons)
qed

text \<open>
  Claim C3. For every sequence of \<^verbatim>\<open>Store\<close> and \<^verbatim>\<open>Get\<close> calls issued one after the
  other on a fresh repository, the repository built with the \<^verbatim>\<open>sync.Map\<close> cache and the
  one built with the mutex-guarded map return, without a panic, the same list of results
  (the same records and the same \<^verbatim>\<open>found\<close> values), and end with the same database
  map and the same cache contents.
\<close>

theorem strategy_equivalence:
  "\<exists>es1 es2 rs u1 u2.
     run ops (newUserRepo True) = (es1, Inr (rs, u1)) \<and>
     run ops (newUserRepo False) = (es2, Inr (rs, u2)) \<and>
     db u1 = db u2 \<and> activeCache u1 = activeCache u2"
proof -
  have r: "\<exists>es. run ops (newUserRepo b) = (es, Inr (effects ops (newUserRepo b)))" for b
    using run_effects [of "newUserRepo b" ops]
    by (cases "run ops (newUserRepo b)") auto
  have "fst (effects ops (newUserRepo True)) = fst (effects ops (newUserRepo False)) \<and>
    db (snd (effects ops (newUserRepo True))) = db (snd (effects ops (newUserRepo False))) \<and>
    activeCache (snd (effects ops (newUserRepo True))) =
      activeCache (snd (effects ops (newUserRepo False)))"
    by (rule effects_related) (simp_all add: newUserRepo_fields newUserRepo_maps)
  with r [of True] r [of False] show ?thesis
    by (metis prod.collapse)
qed

lemma keeps_agreement:
  assumes "initialised v \<and> cacheAgrees v \<and> unusedCacheEmpty v"
  shows "initialised (snd (effect x v)) \<and> cacheAgrees (snd (effect x v)) \<and>
         unusedCacheEmpty (snd (effect x v))"
  using assms by (cases x) (auto simp: cacheAgrees_def split: option.splits)

lemma both_caches_agree:
  assumes "initialised u" "cacheAgrees u" "unusedCacheEmpty u"
  shows "(cacheSM u k = Some v \<or> map_lookup (cacheRWM u) k = Some v) \<longrightarrow>
         map_lookup (db u) k = Some v"
  using assms
  by (auto simp: cacheAgrees_def unusedCacheEmpty_def activeCache_def map_lookup_def
      split: if_splits)

text \<open>
  Claim C10. After every sequence of \<^verbatim>\<open>Get\<close> and \<^verbatim>\<open>Store\<close> calls issued one after
  the other on a fresh repository, built with either strategy, each entry of either cache
  is an entry of the database map with the same record (the cache not in use is empty).
  Each single call keeps this: on a repository that \<^verbatim>\<open>Init\<close> has set up and whose cache
  in use agrees with the database map, a call returns and the cache in use agrees again.
\<close>

theorem cache_within_db:
  "(\<exists>es rs u. run ops (newUserRepo b) = (es, Inr (rs, u)) \<and> initialised u \<and>
      cacheAgrees u \<and> unusedCacheEmpty u \<and>
      (\<forall>k v. cacheSM u k = Some v \<or> map_lookup (cacheRWM u) k = Some v \<longrightarrow>
             map_lookup (db u) k = Some v)) \<and>
   (initialised w \<and> cacheAgrees w \<longrightarrow>
      (\<exists>es r w'. step x w = (es, Inr (r, w')) \<and> initialised w' \<and> cacheAgrees w'))"
proof -
  let ?u = "snd (effects ops (newUserRepo b))"
  have inv: "initialised ?u \<and> cacheAgrees ?u \<and> unusedCacheEmpty ?u"
    by (intro effects_invariant [where P = "\<lambda>v. initialised v \<and> cacheAgrees v \<and>
          unusedCacheEmpty v"] keeps_agreement)
      (auto simp: cacheAgrees_def unusedCacheEmpty_def newUserRepo_fields newUserRepo_maps)
  have r: "\<exists>es rs. run ops (newUserRepo b) = (es, Inr (rs, ?u))"
    using run_effects [of "newUserRepo b" ops]
    by (cases "run ops (newUserRepo b)") (auto simp: prod_eq_iff)
  have one: "\<exists>es r w'. step x w = (es, Inr (r, w')) \<and> initialised w' \<and> cacheAgrees w'"
    if w: "initialised w \<and> cacheAgrees w"
  proof -
    have "initialised (snd (effect x w)) \<and> cacheAgrees (snd (effect x w))"
      using w by (cases x) (auto simp: cacheAgrees_def split: option.splits)
    moreover have "\<exists>es. step x w = (es, Inr (fst (effect x w), snd (effect x w)))"
      using step_effect [of w x] w by (cases "step x w") auto
    ultimately show ?thesis by blast
  qed
  show ?thesis
    using inv r one both_caches_agree [of ?u] by blast
qed

theorem cache_within_db_witness:
  "(\<exists>es rs u. run [OpStore 1 ivan, OpGet 1, OpGet 2] (newUserRepo True) = (es, Inr (rs, u)) \<and>
      cacheAgrees u \<and>
      (\<forall>k v. cacheSM u k = Some v \<or> map_lookup (cacheRWM u) k = Some v \<longrightarrow>
             map_lookup (db u) k = Some v)) \<and>
   initialised (newUserRepo False) \<and> cacheAgrees (newUserRepo False) \<and>
   (\<exists>es r w'. step (OpStore 1 ivan) (newUserRepo False) = (es, Inr (r, w')) \<and> cacheAgrees w')"
proof -
  have i: "initialised (newUserRepo False)"
    by simp
  have c: "cacheAgrees (newUserRepo False)"
    by (simp add: cacheAgrees_def newUserRepo_fields)
  from cache_within_db [of "[OpStore 1 ivan, OpGet 1, OpGet 2]" True "newUserRepo False"
      "OpStore 1 ivan"] i c
  show ?thesis by blast
qed

lemma run_flag: "snd (run ops u) = Inr (rs, u') \<Longrightarrow> isCacheSM u' = isCacheSM u"
proof (induction ops arbitrary: u rs)
  case Nil
  then show ?case by (simp add: ret_def)
next
  case (Cons x xs)
  obtain es c where s: "step x u = (es, c)"
    by (cases "step x u")
  show ?case
  proof (cases c)
    case (Inl p)
    with s Cons.prems show ?thesis
      by (simp add: andThen_def)
  next
    case (Inr ru)
    obtain r u1 where ru: "ru = (r, u1)"
      by (cases ru)
    have f1: "isCacheSM u1 = isCacheSM u"
      using step_flag [of x u r u1] s Inr ru by simp
    obtain es' c' where t: "run xs u1 = (es', c')"
      by (cases "run xs u1")
    from Cons.prems s Inr ru t obtain rs' where "snd (run xs u1) = Inr (rs', u')"
      by (cases c') (auto simp: andThen_def ret_def)
    from Cons.IH [OF this] f1 show ?thesis
      by simp
  qed
qed

lemma calls_flag: "snd (calls cs u) = Inr u' \<Longrightarrow> isCacheSM u' = flagAfter (isCacheSM u) cs"
proof (induction cs arbitrary: u)
  case Nil
  then show ?case by (simp add: ret_def)
next
  case (Cons c cs)
  show ?case
  proof (cases c)
    case (Call x)
    obtain es d where s: "step x u = (es, d)"
      by (cases "step x u")
    show ?thesis
    proof (cases d)
      case (Inl p)
      with s Cons.prems Call show ?thesis
        by (simp add: andThen_def)
    next
      case (Inr ru)
      obtain r u1 where ru: "ru = (r, u1)"
        by (cases ru)
      have f1: "isCacheSM u1 = isCacheSM u"
        using step_flag [of x u r u1] s Inr ru by simp
      have "snd (calls cs u1) = Inr u'"
        using Cons.prems s Inr ru Call
        by (cases "calls cs u1") (simp add: andThen_def)
      from Cons.IH [OF this] f1 Call show ?thesis
        by simp
    qed
  next
    case (CallInit b lg)
    have "isCacheSM (Init b lg u) = b"
      by (simp add: Init_def doInit_def Let_def)
    with Cons.IH [of "Init b lg u"] Cons.prems CallInit show ?thesis
      by simp
  qed
qed

lemma CreateApp_value:
  "CreateApp b =
     ([Println appIsStarted],
      Inr \<lparr>app_o = True, buf = [appIsStarted], app_logger = Some Logger,
           UserS = \<lparr>service = Some \<lparr>repo = Some (newUserRepo b)\<rparr>\<rparr>, app_isCacheSM = b\<rparr>)"
  by (simp add: CreateApp_def App_Init_def App_doInit_def App_zero_def UserService_Init_def
      UserServer_Init_def newUserRepo_def prog_defs Let_def)

text \<open>
  Claim C6, as stated, fails: a second call of \<^verbatim>\<open>UserRepo.Init\<close> with the other flag
  value changes the flag of a repository that is already built.
\<close>

theorem Init_again_changes_flag:
  "isCacheSM (Init False (Some Logger) (newUserRepo True)) \<noteq> isCacheSM (newUserRepo True)"
  by (simp add: newUserRepo_def Init_def doInit_def UserRepo_zero_def)

text \<open>
  Claim C6, amended. \<^verbatim>\<open>Get\<close> and \<^verbatim>\<open>Store\<close> never change the strategy flag: after any
  sequence of them the flag is the one the repository was built with.
  \<^verbatim>\<open>UserRepo.Init\<close> stores its argument in the flag on every call (the once guards the
  allocation of the maps only), so after any sequence of calls the flag is the argument
  of the latest \<^verbatim>\<open>Init\<close> among them. A further \<^verbatim>\<open>App.Init\<close> sets the flag field of
  the app and leaves the repository, with its flag, as the first call built it.
\<close>

theorem flag_follows_Init:
  "(snd (run ops u) = Inr (rs, u') \<longrightarrow> isCacheSM u' = isCacheSM u) \<and>
   (snd (calls cs u) = Inr u'' \<longrightarrow> isCacheSM u'' = flagAfter (isCacheSM u) cs) \<and>
   isCacheSM (Init b lg u) = b \<and>
   (\<exists>a. CreateApp b = ([Println appIsStarted], Inr a) \<and> appRepo a = Some (newUserRepo b) \<and>
      App_Init b' a = ([], Inr (a\<lparr>app_isCacheSM := b'\<rparr>)) \<and>
      appRepo (a\<lparr>app_isCacheSM := b'\<rparr>) = Some (newUserRepo b))"
proof -
  have "isCacheSM (Init b lg u) = b"
    by (simp add: Init_def doInit_def Let_def)
  moreover have "\<exists>a. CreateApp b = ([Println appIsStarted], Inr a) \<and>
      appRepo a = Some (newUserRepo b) \<and>
      App_Init b' a = ([], Inr (a\<lparr>app_isCacheSM := b'\<rparr>)) \<and>
      appRepo (a\<lparr>app_isCacheSM := b'\<rparr>) = Some (newUserRepo b)"
    by (simp add: CreateApp_value appRepo_def App_Init_def ret_def Let_def)
  ultimately show ?thesis
    using run_flag [of ops u rs u'] calls_flag [of cs u u''] by blast
qed

theorem flag_follows_Init_witness:
  "(\<exists>rs u'. snd (run [OpStore 1 ivan, OpGet 1] (newUserRepo True)) = Inr (rs, u') \<and>
      isCacheSM u' = True) \<and>
   (\<exists>u''. snd (calls [Call (OpStore 1 ivan), CallInit False (Some Logger), Call (OpGet 1)]
              (newUserRepo True)) = Inr u'' \<and> isCacheSM u'' = False)"
proof -
  let ?ops = "[OpStore 1 ivan, OpGet 1]"
  let ?cs = "[Call (OpStore 1 ivan), CallInit False (Some Logger), Call (OpGet 1)]"
  have r: "snd (run ?ops (newUserRepo True)) = Inr (effects ?ops (newUserRepo True))"
    by (rule run_effects) simp
  let ?u1 = "snd (effect (OpStore 1 ivan) (newUserRepo True))"
  let ?u2 = "Init False (Some Logger) ?u1"
  have i1: "initialised ?u1"
    by (rule initialised_effect) simp
  have i2: "initialised ?u2"
    using i1 by (simp add: initialised_def Init_def Let_def)
  have s1: "snd (step (OpStore 1 ivan) (newUserRepo True)) = Inr (Stored, ?u1)"
    using step_effect [of "newUserRepo True" "OpStore 1 ivan"] by simp
  have s2: "snd (step (OpGet 1) ?u2) = Inr (effect (OpGet 1) ?u2)"
    by (rule step_effect [OF i2])
  have c: "snd (calls ?cs (newUserRepo True)) = Inr (snd (effect (OpGet 1) ?u2))"
    using s1 s2
    by (cases "step (OpStore 1 ivan) (newUserRepo True)"; cases "step (OpGet 1) ?u2")
      (simp add: andThen_def ret_def split: prod.splits)
  from flag_follows_Init [of ?ops "newUserRepo True" "fst (effects ?ops (newUserRepo True))"
      "snd (effects ?ops (newUserRepo True))" ?cs "snd (effect (OpGet 1) ?u2)"] r c
  show ?thesis
    by (simp add: newUserRepo_fields)
qed

lemma dbGuarded_append:
  "dbGuarded h es \<Longrightarrow> dbGuarded False es' \<Longrightarrow> dbGuarded h (es @ es')"
  by (induction h es rule: dbGuarded.induct) auto

lemma Get_guarded: "initialised u \<Longrightarrow> dbGuarded False (fst (Get k u))"
  by (simp add: Get_initialised getFromCache_initialised storeInCache_initialised
      split: option.splits)

lemma Store_guarded: "initialised u \<Longrightarrow> dbGuarded False (fst (Store k r u))"
  by (simp add: Store_initialised storeInCache_initialised)

lemma step_guarded: "initialised u \<Longrightarrow> dbGuarded False (fst (step x u))"
proof (cases x)
  case (OpGet k)
  assume i: "initialised u"
  have "fst (step x u) = fst (Get k u)"
    unfolding OpGet
    by (cases "Get k u") (auto simp: andThen_def ret_def split: sum.splits)
  with Get_guarded [OF i] show ?thesis by simp
next
  case (OpStore k r)
  assume i: "initialised u"
  have "fst (step x u) = fst (Store k r u)"
    unfolding OpStore
    by (cases "Store k r u") (auto simp: andThen_def ret_def split: sum.splits)
  with Store_guarded [OF i] show ?thesis by simp
qed

lemma run_guarded: "initialised u \<Longrightarrow> dbGuarded False (fst (run xs u))"
proof (induction xs arbitrary: u)
  case Nil
  show ?case by (simp add: ret_def)
next
  case (Cons x xs)
  obtain es where s: "step x u = (es, Inr (effect x u))"
    using step_effect [OF Cons.prems, of x] by (cases "step x u") simp
  have g: "dbGuarded False es"
    using step_guarded [OF Cons.prems, of x] s by simp
  let ?u1 = "snd (effect x u)"
  have i: "initialised ?u1"
    by (rule initialised_effect [OF Cons.prems])
  obtain es' where r: "run xs ?u1 = (es', Inr (effects xs ?u1))"
    using run_effects [OF i, of xs] by (cases "run xs ?u1") simp
  have g': "dbGuarded False es'"
    using Cons.IH [OF i] r by simp
  have "fst (run (x # xs) u) = es @ es'"
    using s r by (cases "effect x u") (simp add: andThen_def ret_def split: prod.splits)
  with dbGuarded_append [OF g g'] show ?case by simp
qed

text \<open>
  Claim C5, as stated, fails for \<^verbatim>\<open>unnamed/part_000\<close>: its repository has no mutex for
  the database map, so \<^verbatim>\<open>Get\<close> reads and \<^verbatim>\<open>Store\<close> writes the map outside any
  critical section.
\<close>

theorem part_000_db_unguarded:
  "\<not> dbGuarded False (fst (Get_p0 1 (newUserRepo True))) \<and>
   \<not> dbGuarded False (fst (Store_p0 1 ivan (newUserRepo True)))"
  by (simp add: Get_p0_initialised Store_p0_initialised getFromCache_initialised
      storeInCache_initialised newUserRepo_fields)

text \<open>
  Claim C5, amended. In \<^verbatim>\<open>main.go\<close> and \<^verbatim>\<open>unnamed/part_001\<close>, on a repository that
  \<^verbatim>\<open>Init\<close> has set up, \<^verbatim>\<open>Get\<close> and \<^verbatim>\<open>Store\<close> return, every read and every write
  of the database map they perform lies between a \<^verbatim>\<open>dbMutex.Lock()\<close> and the matching
  \<^verbatim>\<open>dbMutex.Unlock()\<close>, and the mutex is free when they return; the same holds along
  every sequence of such calls. (\<^verbatim>\<open>unnamed/part_000\<close>, which runs its calls on one
  goroutine, has no such mutex.)
\<close>

theorem db_access_under_mutex:
  assumes "initialised u"
  shows "(\<exists>x. snd (Get k u) = Inr x) \<and> dbGuarded False (fst (Get k u)) \<and>
         (\<exists>x. snd (Store k r u) = Inr x) \<and> dbGuarded False (fst (Store k r u)) \<and>
         (\<exists>x. snd (run ops u) = Inr x) \<and> dbGuarded False (fst (run ops u))"
proof -
  have "\<exists>x. snd (Get k u) = Inr x"
    using assms by (auto simp: Get_initialised split: option.splits)
  moreover have "\<exists>x. snd (Store k r u) = Inr x"
    using assms by (simp add: Store_initialised)
  moreover have "\<exists>x. snd (run ops u) = Inr x"
    using run_effects [OF assms] by simp
  ultimately show ?thesis
    using Get_guarded [OF assms] Store_guarded [OF assms] run_guarded [OF assms] by simp
qed

theorem db_access_under_mutex_witness:
  "initialised (newUserRepo False) \<and>
   fst (Store 1 ivan (newUserRepo False)) =
     [DbLock, DbWrite 1 ivan, DbUnlock, WLock, RwmWrite 1 ivan, WUnlock] \<and>
   dbGuarded False (fst (Store 1 ivan (newUserRepo False))) \<and>
   fst (Get 1 (newUserRepo False)) =
     [RLock, RwmRead 1, RUnlock, Println notFoundInCache, DbLock, DbRead 1, DbUnlock,
      Println notFoundInDB] \<and>
   dbGuarded False (fst (Get 1 (newUserRepo False)))"
proof -
  have i: "initialised (newUserRepo False)"
    by simp
  from db_access_under_mutex [OF i, of 1 ivan "[]"] i show ?thesis
    by (simp add: Store_initialised Get_initialised getFromCache_initialised
        storeInCache_initialised newUserRepo_fields)
qed

section \<open>Properties of the load generator\<close>

subsection \<open>Rounding\<close>

lemma two_powi_pos [simp]: "0 < (2::rat) powi e"
  by (simp add: zero_less_power_int)

lemma two_powi_Suc: "(2::rat) powi (e + 1) = 2 * 2 powi e"
  by (simp add: power_int_add)

lemma two_powi_pred: "(2::rat) powi (e - 1) = 2 powi e / 2"
  by (simp add: power_int_diff)

lemma expo_bounds: "0 < x \<Longrightarrow> 2 powi expo x \<le> x \<and> x < 2 powi (expo x + 1)"
proof (induction x rule: expo.induct)
  case (1 x)
  consider "x < 1 / 2" | "1 / 2 \<le> x" "x < 1" | "1 \<le> x" "x < 2" | "2 \<le> x"
    by linarith
  then show ?case
  proof cases
    case 1
    with "1.prems" have e: "expo x = expo (2 * x) - 1"
      by (subst expo.simps) simp
    from "1.IH"(1) "1.prems" 1 have "2 powi expo (2 * x) \<le> 2 * x \<and> 2 * x < 2 powi (expo (2 * x) + 1)"
      by simp
    then show ?thesis
      unfolding e by (simp add: two_powi_pred two_powi_Suc)
  next
    case 2
    with "1.prems" have e: "expo x = - 1"
      by (subst expo.simps) simp
    show ?thesis
      unfolding e using 2 by (simp add: power_int_minus)
  next
    case 3
    with "1.prems" have e: "expo x = 0"
      by (subst expo.simps) simp
    show ?thesis
      unfolding e using 3 by simp
  next
    case 4
    with "1.prems" have e: "expo x = expo (x / 2) + 1"
      by (subst expo.simps) simp
    from "1.IH"(2) "1.prems" 4 have "2 powi expo (x / 2) \<le> x / 2 \<and> x / 2 < 2 powi (expo (x / 2) + 1)"
      by simp
    moreover have "(2::rat) powi (expo (x / 2) + 1 + 1) = 4 * 2 powi expo (x / 2)"
      "(2::rat) powi (expo (x / 2) + 1) = 2 * 2 powi expo (x / 2)"
      by (simp_all add: power_int_add)
    ultimately show ?thesis
      unfolding e by (simp only:) linarith
  qed
qed

lemma two_powi_mono: "e \<le> e' \<Longrightarrow> (2::rat) powi e \<le> 2 powi e'"
  by (rule power_int_increasing) simp_all

lemma two_powi_less_imp: "(2::rat) powi e < 2 powi e' \<Longrightarrow> e < e'"
  using two_powi_mono [of e' e] by (cases "e < e'") auto

lemma expo_unique:
  assumes "0 < x" "2 powi e \<le> x" "x < 2 powi (e + 1)"
  shows "expo x = e"
proof -
  from expo_bounds [OF assms(1)] assms
  have "(2::rat) powi e < 2 powi (expo x + 1)" "(2::rat) powi expo x < 2 powi (e + 1)"
    by linarith+
  then have "e < expo x + 1" "expo x < e + 1"
    by (auto dest: two_powi_less_imp)
  then show ?thesis by simp
qed

lemma expo_mono:
  assumes "0 < x" "x \<le> y"
  shows "expo x \<le> expo y"
proof -
  from expo_bounds [OF assms(1)] expo_bounds [of y] assms
  have "(2::rat) powi expo x < 2 powi (expo y + 1)"
    by linarith
  then have "expo x < expo y + 1"
    by (rule two_powi_less_imp)
  then show ?thesis by simp
qed

lemma rne_of_int [simp]: "rne (of_int n) = n"
  by (simp add: rne_def)

lemma rne_near: "\<bar>of_int (rne t) - t\<bar> \<le> 1 / 2"
  unfolding rne_def Let_def
  by (auto simp: abs_if) linarith+

lemma rne_mono:
  assumes "s \<le> t"
  shows "rne s \<le> rne t"
proof (cases "\<lfloor>s\<rfloor> = \<lfloor>t\<rfloor>")
  case True
  with assms show ?thesis
    unfolding rne_def Let_def by auto
next
  case False
  with assms have "\<lfloor>s\<rfloor> + 1 \<le> \<lfloor>t\<rfloor>"
    using floor_mono [OF assms] by linarith
  moreover have "rne s \<le> \<lfloor>s\<rfloor> + 1" "\<lfloor>t\<rfloor> \<le> rne t"
    unfolding rne_def Let_def by auto
  ultimately show ?thesis by linarith
qed

lemma round_f64_pos:
  "0 < x \<Longrightarrow>
     round_f64 x = of_int (rne (x / 2 powi (expo x - 52))) * 2 powi (expo x - 52)"
  by (simp add: round_f64_def Let_def)

lemma two_powi_split: "(2::rat) powi e = 2 ^ 52 * 2 powi (e - 52)"
  by (simp add: power_int_diff)

lemma mantissa_bounds:
  assumes "0 < x"
  shows "2 ^ 52 \<le> x / 2 powi (expo x - 52)" "x / 2 powi (expo x - 52) < 2 ^ 53"
proof -
  have b: "2 powi expo x \<le> x" "x < 2 * 2 powi expo x"
    using expo_bounds [OF assms] by (simp_all add: two_powi_Suc)
  have s: "(2::rat) powi expo x = 2 ^ 52 * 2 powi (expo x - 52)"
    by (rule two_powi_split)
  show "2 ^ 52 \<le> x / 2 powi (expo x - 52)"
    using b(1) unfolding s by (simp add: pos_le_divide_eq)
  show "x / 2 powi (expo x - 52) < 2 ^ 53"
    using b(2) unfolding s by (simp add: pos_divide_less_eq)
qed

lemma rne_mantissa_bounds:
  assumes "0 < x"
  shows "2 ^ 52 \<le> rne (x / 2 powi (expo x - 52))" "rne (x / 2 powi (expo x - 52)) \<le> 2 ^ 53"
proof -
  have "rne (of_int (2 ^ 52)) \<le> rne (x / 2 powi (expo x - 52))"
    by (rule rne_mono) (use mantissa_bounds(1) [OF assms] in simp)
  then show "2 ^ 52 \<le> rne (x / 2 powi (expo x - 52))"
    by (simp only: rne_of_int)
  have "rne (x / 2 powi (expo x - 52)) \<le> rne (of_int (2 ^ 53))"
    by (rule rne_mono) (use mantissa_bounds(2) [OF assms] in simp)
  then show "rne (x / 2 powi (expo x - 52)) \<le> 2 ^ 53"
    by (simp only: rne_of_int)
qed

lemma round_f64_lower:
  assumes "0 < x"
  shows "2 powi expo x \<le> round_f64 x"
proof -
  have "(2::rat) ^ 52 \<le> of_int (rne (x / 2 powi (expo x - 52)))"
    using rne_mantissa_bounds(1) [OF assms]
    by (metis of_int_le_iff of_int_numeral of_int_power)
  then have "(2::rat) ^ 52 * 2 powi (expo x - 52) \<le> of_int (rne (x / 2 powi (expo x - 52))) * 2 powi (expo x - 52)"
    by (rule mult_right_mono) simp
  then show ?thesis
    by (simp only: round_f64_pos [OF assms] two_powi_split [symmetric])
qed

lemma round_f64_upper:
  assumes "0 < x"
  shows "round_f64 x \<le> 2 powi (expo x + 1)"
proof -
  have "of_int (rne (x / 2 powi (expo x - 52))) \<le> (2::rat) ^ 53"
    using rne_mantissa_bounds(2) [OF assms]
    by (metis of_int_le_iff of_int_numeral of_int_power)
  then have "of_int (rne (x / 2 powi (expo x - 52))) * 2 powi (expo x - 52) \<le> (2::rat) ^ 53 * 2 powi (expo x - 52)"
    by (rule mult_right_mono) simp
  moreover have "(2::rat) ^ 53 * 2 powi (expo x - 52) = 2 powi (expo x + 1)"
    by (simp add: power_int_diff power_int_add)
  ultimately show ?thesis
    by (simp only: round_f64_pos [OF assms])
qed

lemma round_f64_nonneg: "0 \<le> x \<Longrightarrow> 0 \<le> round_f64 x"
proof (cases "x = 0")
  case True
  then show ?thesis by (simp add: round_f64_def)
next
  case False
  assume "0 \<le> x"
  with False have p: "0 < x" by simp
  have "(0::rat) < 2 powi expo x" by simp
  with round_f64_lower [OF p] show ?thesis by linarith
qed

lemma round_f64_mono:
  assumes "0 \<le> x" "x \<le> y"
  shows "round_f64 x \<le> round_f64 y"
proof (cases "x = 0")
  case True
  with assms round_f64_nonneg [of y] show ?thesis
    by (simp add: round_f64_def)
next
  case False
  with assms have px: "0 < x" and py: "0 < y"
    by simp_all
  show ?thesis
  proof (cases "expo x = expo y")
    case True
    have "x / 2 powi (expo y - 52) \<le> y / 2 powi (expo y - 52)"
      using assms(2) by (simp add: divide_right_mono)
    then have "rne (x / 2 powi (expo y - 52)) \<le> rne (y / 2 powi (expo y - 52))"
      by (rule rne_mono)
    then have "(of_int (rne (x / 2 powi (expo y - 52))) :: rat) \<le> of_int (rne (y / 2 powi (expo y - 52)))"
      by simp
    then have "of_int (rne (x / 2 powi (expo y - 52))) * (2::rat) powi (expo y - 52) \<le>
       of_int (rne (y / 2 powi (expo y - 52))) * 2 powi (expo y - 52)"
      by (rule mult_right_mono) simp
    then show ?thesis
      by (simp only: round_f64_pos [OF px] round_f64_pos [OF py] True)
  next
    case False
    with expo_mono [OF px assms(2)] have "expo x + 1 \<le> expo y"
      by simp
    then have "(2::rat) powi (expo x + 1) \<le> 2 powi expo y"
      by (rule two_powi_mono)
    with round_f64_upper [OF px] round_f64_lower [OF py] show ?thesis
      by linarith
  qed
qed

lemma round_f64_error:
  assumes "0 < x"
  shows "\<bar>round_f64 x - x\<bar> \<le> x / 2 ^ 53"
proof -
  let ?u = "(2::rat) powi (expo x - 52)"
  let ?m = "x / ?u"
  have x: "x = ?m * ?u"
    by simp
  have "round_f64 x - x = (of_int (rne ?m) - ?m) * ?u"
    by (simp add: round_f64_pos [OF assms] algebra_simps)
  then have "\<bar>round_f64 x - x\<bar> = \<bar>of_int (rne ?m) - ?m\<bar> * ?u"
    by (simp add: abs_mult)
  also have "\<dots> \<le> 1 / 2 * ?u"
    by (rule mult_right_mono [OF rne_near]) simp
  also have "\<dots> = 2 powi expo x / 2 ^ 53"
    by (simp add: power_int_diff)
  also have "\<dots> \<le> x / 2 ^ 53"
    using expo_bounds [OF assms] by (simp add: divide_right_mono)
  finally show ?thesis .
qed

lemma round_f64_of_int:
  assumes "0 \<le> n" "n < 2 ^ 53"
  shows "round_f64 (of_int n) = of_int n"
proof (cases "n = 0")
  case True
  then show ?thesis by (simp add: round_f64_def)
next
  case False
  with assms have p: "(0::rat) < of_int n"
    by simp
  let ?e = "expo (of_int n)"
  have "(2::rat) powi ?e \<le> of_int n"
    using expo_bounds [OF p] by simp
  also have "(of_int n :: rat) < 2 ^ 53"
    using assms(2) by (metis of_int_less_iff of_int_numeral of_int_power)
  finally have "(2::rat) powi ?e < 2 powi 53"
    by simp
  then have e: "?e \<le> 52"
    using two_powi_less_imp [of ?e 53] by simp
  define k where "k = nat (52 - ?e)"
  have u: "(2::rat) powi (?e - 52) = 1 / 2 ^ k"
    using e unfolding k_def
    by (simp add: power_int_def field_simps flip: power_add)
  have m: "of_int n / (2::rat) powi (?e - 52) = of_int (n * 2 ^ k)"
    unfolding u by simp
  show ?thesis
    unfolding round_f64_pos [OF p] m rne_of_int
    by (simp add: u)
qed

lemma floor_numeral_div: "\<lfloor>(numeral a :: rat) / numeral b\<rfloor> = numeral a div numeral b"
  using floor_divide_of_int_eq [of "numeral a" "numeral b", where 'a = rat] by simp

lemmas f64_eval = round_f64_def expo.simps rne_def Let_def power_int_minus floor_numeral_div

lemma round_f64_third: "round_f64 (1 / 3) = 6004799503160661 / 18014398509481984"
  by (simp add: f64_eval)

lemma round_f64_two_thirds: "round_f64 (2 / 3) = 6004799503160661 / 9007199254740992"
  by (simp add: f64_eval)

lemma threeOps_calls: "workerCalls threeOps 7 0 = [OpGet 7, OpGet 7, OpStore 7 \<lparr>Name = ''User-2''\<rparr>]"
  by (simp add: workerCalls.simps threeOps_def quota_def go_div_def loopCall_def f64_div_def
      float64_of_int_def round_f64_third round_f64_two_thirds Let_def userNo_def
      round_f64_of_int [of 0, simplified] round_f64_of_int [of 1, simplified]
      round_f64_of_int [of 2, simplified] round_f64_of_int [of 3, simplified]
      showInt_def showNat.simps digit_def)

subsection \<open>The calls of a worker\<close>

lemma round_f64_zero [simp]: "round_f64 0 = 0"
  by (simp add: round_f64_def)

lemma round_f64_pos_gt: "0 < x \<Longrightarrow> 0 < round_f64 x"
  using round_f64_lower [of x] two_powi_pos [of "expo x"] by linarith

lemma ratio_mono:
  assumes "0 \<le> j" "j \<le> j'" "0 < q"
  shows "f64_div (float64_of_int j) (float64_of_int q) \<le>
         f64_div (float64_of_int j') (float64_of_int q)"
proof -
  have q: "0 < round_f64 (of_int q)"
    using assms(3) by (intro round_f64_pos_gt) simp
  have a: "0 \<le> round_f64 (of_int j)"
    using assms(1) by (intro round_f64_nonneg) simp
  have b: "round_f64 (of_int j) \<le> round_f64 (of_int j')"
    using assms(1,2) by (intro round_f64_mono) simp_all
  have "round_f64 (of_int j) / round_f64 (of_int q) \<le> round_f64 (of_int j') / round_f64 (of_int q)"
    using b q by (simp add: divide_right_mono)
  moreover have "0 \<le> round_f64 (of_int j) / round_f64 (of_int q)"
    using a q by simp
  ultimately show ?thesis
    unfolding f64_div_def float64_of_int_def by (intro round_f64_mono)
qed

lemma workerCalls_map:
  "workerCalls s uid j = map (loopCall s uid) [j..quota s - 1]"
proof (induction s uid j rule: workerCalls.induct)
  case (1 scale uid j)
  show ?case
  proof (cases "j < quota scale")
    case True
    then have "j \<le> quota scale - 1"
      by simp
    then have u: "[j..quota scale - 1] = j # [j + 1..quota scale - 1]"
      by (rule upto_rec1)
    from True "1.IH" show ?thesis
      by (subst workerCalls.simps) (simp add: u)
  next
    case False
    then show ?thesis
      by (subst workerCalls.simps) simp
  qed
qed

text \<open>A property of indices that holds below every index at which it holds has a threshold.\<close>

lemma threshold:
  fixes q :: int
  assumes down: "\<And>j j'. 0 \<le> j \<Longrightarrow> j \<le> j' \<Longrightarrow> P j' \<Longrightarrow> P j"
  shows "0 \<le> q \<Longrightarrow> \<exists>n. 0 \<le> n \<and> n \<le> q \<and> (\<forall>j. 0 \<le> j \<and> j < q \<longrightarrow> (P j \<longleftrightarrow> j < n))"
proof (induction q rule: int_ge_induct)
  case base
  show ?case by (intro exI [of _ 0]) auto
next
  case (step q)
  then obtain n where n: "0 \<le> n" "n \<le> q" "\<forall>j. 0 \<le> j \<and> j < q \<longrightarrow> (P j \<longleftrightarrow> j < n)"
    by blast
  show ?case
  proof (cases "P q")
    case True
    have "\<forall>j. 0 \<le> j \<and> j < q + 1 \<longrightarrow> (P j \<longleftrightarrow> j < q + 1)"
      using down [OF _ _ True] by auto
    with step.hyps show ?thesis
      by (intro exI [of _ "q + 1"]) simp
  next
    case False
    have "\<forall>j. 0 \<le> j \<and> j < q + 1 \<longrightarrow> (P j \<longleftrightarrow> j < n)"
    proof (intro allI impI)
      fix j assume j: "0 \<le> j \<and> j < q + 1"
      show "P j \<longleftrightarrow> j < n"
      proof (cases "j = q")
        case True
        with False n(2) show ?thesis by simp
      next
        case False
        with j n(3) show ?thesis by simp
      qed
    qed
    with n(1,2) show ?thesis
      by (intro exI [of _ n]) simp
  qed
qed

lemma upto_threshold:
  assumes "0 \<le> n" "n \<le> q" "\<forall>j. 0 \<le> j \<and> j < q \<longrightarrow> (P j \<longleftrightarrow> j < n)"
  shows "map (\<lambda>j. if P j then f j else g j) [0..q - 1] = map f [0..n - 1] @ map g [n..q - 1]"
proof -
  have s: "[0..q - 1] = [0..n - 1] @ [n..q - 1]"
  proof (cases "n = q")
    case True
    then show ?thesis by simp
  next
    case False
    with assms(1,2) show ?thesis
      by (intro upto_split1) simp_all
  qed
  have "map (\<lambda>j. if P j then f j else g j) [0..n - 1] = map f [0..n - 1]"
    using assms by (intro map_cong) auto
  moreover have "map (\<lambda>j. if P j then f j else g j) [n..q - 1] = map g [n..q - 1]"
    using assms by (intro map_cong) auto
  ultimately show ?thesis
    unfolding s by simp
qed

lemma ratio_small:
  assumes "0 \<le> j" "j < q" "q < 2 ^ 53"
  shows "f64_div (float64_of_int j) (float64_of_int q) = round_f64 (of_int j / of_int q)"
  using assms by (simp add: f64_div_def float64_of_int_def round_f64_of_int)

lemma read_below_product:
  assumes "0 \<le> j" "j < q" "q < 2 ^ 53" "0 \<le> F" "round_f64 F = F"
    and "f64_div (float64_of_int j) (float64_of_int q) < F"
  shows "of_int j < F * of_int q"
proof (rule ccontr)
  assume "\<not> of_int j < F * of_int q"
  then have "F * of_int q \<le> of_int j"
    by simp
  moreover have q: "(0::rat) < of_int q"
    using assms(1,2) by simp
  ultimately have "F \<le> of_int j / of_int q"
    by (simp add: pos_le_divide_eq)
  then have "round_f64 F \<le> round_f64 (of_int j / of_int q)"
    using assms(4) by (intro round_f64_mono)
  with assms(5,6) show False
    unfolding ratio_small [OF assms(1-3)] by linarith
qed

lemma read_when_next_fits:
  assumes "0 \<le> j" "j < q" "q < 2 ^ 53" and "of_int (j + 1) \<le> F * of_int q"
  shows "f64_div (float64_of_int j) (float64_of_int q) < F"
proof -
  have q: "(0::rat) < of_int q"
    using assms(1,2) by simp
  have q53: "(of_int q :: rat) < 2 ^ 53"
    using assms(3) by (metis of_int_less_iff of_int_numeral of_int_power)
  have "(of_int j + 1) / of_int q * of_int q \<le> F * of_int q"
    using assms(4) q by simp
  then have f: "(of_int j + 1) / of_int q \<le> F"
    using q by (simp only: mult_le_cancel_right_pos)
  show ?thesis
  proof (cases "j = 0")
    case True
    have z: "f64_div (float64_of_int j) (float64_of_int q) = 0"
      unfolding ratio_small [OF assms(1-3)] using True by simp
    have "(0::rat) < (of_int j + 1) / of_int q"
      using q True by simp
    with f have "0 < F"
      by linarith
    with z show ?thesis
      by simp
  next
    case False
    define x :: rat where "x = of_int j / of_int q"
    have "(0::rat) < of_int j" "(of_int j :: rat) < of_int q"
      using False assms(1,2) by simp_all
    then have x: "0 < x" "x < 1"
      unfolding x_def using q by simp_all
    have e: "\<bar>round_f64 x - x\<bar> \<le> x / 2 ^ 53"
      by (rule round_f64_error [OF x(1)])
    have a: "x / 2 ^ 53 < 1 / 2 ^ 53"
      using x(2) by (simp add: divide_strict_right_mono)
    have b: "(1::rat) / 2 ^ 53 < 1 / of_int q"
      using q q53 by (intro divide_strict_left_mono) simp_all
    have c: "x + 1 / of_int q = (of_int j + 1) / of_int q"
      unfolding x_def by (simp add: add_divide_distrib)
    have "round_f64 x < x + 1 / of_int q"
      using e a b by linarith
    with c f have "round_f64 x < F"
      by linarith
    then show ?thesis
      unfolding ratio_small [OF assms(1-3)] x_def .
  qed
qed

lemma filter_isRead_split:
  "length (filter isRead (map (\<lambda>j. OpGet uid) xs @ map (\<lambda>j. OpStore uid (f j)) ys)) = length xs"
  by (simp add: filter_map comp_def)

lemma workerCalls_split:
  assumes "0 \<le> n" "n \<le> quota s"
    and "\<forall>j. 0 \<le> j \<and> j < quota s \<longrightarrow>
           (f64_div (float64_of_int j) (float64_of_int (quota s)) < readRatio s \<longleftrightarrow> j < n)"
  shows "workerCalls s uid 0 =
       map (\<lambda>j. OpGet uid) [0..n - 1] @ map (\<lambda>j. OpStore uid (userNo j)) [n..quota s - 1]"
proof -
  have "loopCall s uid =
      (\<lambda>j. if f64_div (float64_of_int j) (float64_of_int (quota s)) < readRatio s
            then OpGet uid else OpStore uid (userNo j))"
    by (rule ext) (simp add: loopCall_def Let_def)
  then show ?thesis
    unfolding workerCalls_map
    using upto_threshold [OF assms, of "\<lambda>j. OpGet uid" "\<lambda>j. OpStore uid (userNo j)"]
    by (simp only:)
qed

lemma reads_lower:
  assumes q: "0 < q" "q < 2 ^ 53" and F: "F \<le> 1"
    and n: "0 \<le> n" "\<forall>j. 0 \<le> j \<and> j < q \<longrightarrow>
           (f64_div (float64_of_int j) (float64_of_int q) < F \<longleftrightarrow> j < n)"
  shows "\<lfloor>F * of_int q\<rfloor> \<le> n"
proof (rule ccontr)
  assume "\<not> \<lfloor>F * of_int q\<rfloor> \<le> n"
  then have l: "n + 1 \<le> \<lfloor>F * of_int q\<rfloor>"
    by simp
  then have a: "of_int (n + 1) \<le> F * of_int q"
    by (simp only: le_floor_iff)
  have "F * of_int q \<le> 1 * of_int q"
    using F q(1) by (intro mult_right_mono) simp_all
  then have "\<lfloor>F * of_int q\<rfloor> \<le> \<lfloor>of_int q :: rat\<rfloor>"
    by (intro floor_mono) simp
  then have "\<lfloor>F * of_int q\<rfloor> \<le> q"
    by simp
  with l have b: "n < q"
    by simp
  have "f64_div (float64_of_int n) (float64_of_int q) < F"
    by (rule read_when_next_fits [OF n(1) b q(2) a])
  with n b show False
    by auto
qed

lemma reads_upper:
  assumes q: "0 < q" "q < 2 ^ 53" and F: "0 \<le> F" "round_f64 F = F"
    and n: "0 \<le> n" "n \<le> q" "\<forall>j. 0 \<le> j \<and> j < q \<longrightarrow>
           (f64_div (float64_of_int j) (float64_of_int q) < F \<longleftrightarrow> j < n)"
  shows "n \<le> \<lceil>F * of_int q\<rceil>"
proof (cases "n = 0")
  case True
  have "0 \<le> F * of_int q"
    using F(1) q(1) by simp
  then have "0 \<le> \<lceil>F * of_int q\<rceil>"
    by (simp add: le_ceiling_iff)
  with True show ?thesis by simp
next
  case False
  with n have m: "0 \<le> n - 1" "n - 1 < q"
    by simp_all
  with n(3) have p: "f64_div (float64_of_int (n - 1)) (float64_of_int q) < F"
    by simp
  have "of_int (n - 1) < F * of_int q"
    by (rule read_below_product [OF m q(2) F p])
  then have "n - 1 < \<lceil>F * of_int q\<rceil>"
    by (simp only: less_ceiling_iff)
  then show ?thesis by simp
qed

lemma ratio_down:
  assumes "0 < q" "0 \<le> j" "j \<le> j'"
    and "f64_div (float64_of_int j') (float64_of_int q) < F"
  shows "f64_div (float64_of_int j) (float64_of_int q) < F"
  by (rule le_less_trans [OF ratio_mono [OF assms(2,3,1)] assms(4)])

lemma read_threshold:
  assumes "0 < q"
  shows "\<exists>n. 0 \<le> n \<and> n \<le> q \<and>
    (\<forall>j. 0 \<le> j \<and> j < q \<longrightarrow> (f64_div (float64_of_int j) (float64_of_int q) < F \<longleftrightarrow> j < n))"
proof (rule threshold)
  show "0 \<le> q"
    using assms by simp
next
  fix j j' :: int
  assume "0 \<le> j" "j \<le> j'" "f64_div (float64_of_int j') (float64_of_int q) < F"
  then show "f64_div (float64_of_int j) (float64_of_int q) < F"
    using ratio_down [OF assms] by blast
qed

text \<open>
  Claim C7, as stated, fails: with a quota of 3 and a read fraction of one half the
  worker reads twice, since \<open>0/3\<close> and \<open>1/3\<close> are below one half, while
  \<open>\<lfloor>3/2\<rfloor> = 1\<close>.
\<close>

theorem three_calls_two_reads:
  "workerCalls threeOps 7 0 = [OpGet 7, OpGet 7, OpStore 7 \<lparr>Name = ''User-2''\<rparr>] \<and>
   int (length (filter isRead (workerCalls threeOps 7 0))) \<noteq>
     \<lfloor>readRatio threeOps * of_int (quota threeOps)\<rfloor>"
proof -
  have "\<lfloor>readRatio threeOps * of_int (quota threeOps)\<rfloor> = 1"
    by (simp add: threeOps_def quota_def go_div_def floor_numeral_div)
  then show ?thesis
    by (simp add: threeOps_calls)
qed

text \<open>
  Claim C7, amended. For a worker with quota \<open>Q > 0\<close>, the calls are \<open>n\<close> reads
  followed by \<open>Q - n\<close> writes, all reads before all writes, where \<open>n\<close> is the number
  of indices \<open>j < Q\<close> whose \<^verbatim>\<open>float64\<close> quotient \<open>j / Q\<close> is below the read
  fraction \<open>F\<close>. When \<open>Q < 2^53\<close>, \<open>0 \<le> F \<le> 1\<close> and \<open>F\<close> is a \<^verbatim>\<open>float64\<close>, this
  number lies between \<open>\<lfloor>F * Q\<rfloor>\<close> and \<open>\<lceil>F * Q\<rceil>\<close>.
\<close>

theorem worker_reads_then_writes:
  assumes "0 < quota s"
  shows "\<exists>n. 0 \<le> n \<and> n \<le> quota s \<and>
     workerCalls s uid 0 =
       map (\<lambda>j. OpGet uid) [0..n - 1] @ map (\<lambda>j. OpStore uid (userNo j)) [n..quota s - 1] \<and>
     int (length (filter isRead (workerCalls s uid 0))) = n \<and>
     (quota s < 2 ^ 53 \<and> 0 \<le> readRatio s \<and> readRatio s \<le> 1 \<and>
      round_f64 (readRatio s) = readRatio s \<longrightarrow>
        \<lfloor>readRatio s * of_int (quota s)\<rfloor> \<le> n \<and> n \<le> \<lceil>readRatio s * of_int (quota s)\<rceil>)"
proof -
  from read_threshold [OF assms, of "readRatio s"]
  obtain n where n: "0 \<le> n" "n \<le> quota s"
    "\<forall>j. 0 \<le> j \<and> j < quota s \<longrightarrow>
        (f64_div (float64_of_int j) (float64_of_int (quota s)) < readRatio s \<longleftrightarrow> j < n)"
    by blast
  have w: "workerCalls s uid 0 =
       map (\<lambda>j. OpGet uid) [0..n - 1] @ map (\<lambda>j. OpStore uid (userNo j)) [n..quota s - 1]"
    by (rule workerCalls_split [OF n])
  have "int (length (filter isRead (workerCalls s uid 0))) = int (length [0..n - 1])"
    by (simp only: w filter_isRead_split)
  also have "\<dots> = n"
    using n(1) by simp
  finally have c: "int (length (filter isRead (workerCalls s uid 0))) = n" .
  have b: "quota s < 2 ^ 53 \<and> 0 \<le> readRatio s \<and> readRatio s \<le> 1 \<and>
      round_f64 (readRatio s) = readRatio s \<longrightarrow>
        \<lfloor>readRatio s * of_int (quota s)\<rfloor> \<le> n \<and> n \<le> \<lceil>readRatio s * of_int (quota s)\<rceil>"
  proof (intro impI, elim conjE, intro conjI)
    assume h: "quota s < 2 ^ 53" "0 \<le> readRatio s" "readRatio s \<le> 1"
      "round_f64 (readRatio s) = readRatio s"
    show "\<lfloor>readRatio s * of_int (quota s)\<rfloor> \<le> n"
      by (rule reads_lower [OF assms h(1) h(3) n(1) n(3)])
    show "n \<le> \<lceil>readRatio s * of_int (quota s)\<rceil>"
      by (rule reads_upper [OF assms h(1) h(2) h(4) n])
  qed
  show ?thesis
    by (rule exI [of _ n]) (intro conjI n(1) n(2) w c b)
qed

theorem worker_reads_then_writes_witness:
  "0 < quota threeOps \<and> quota threeOps < 2 ^ 53 \<and> 0 \<le> readRatio threeOps \<and>
   readRatio threeOps \<le> 1 \<and> round_f64 (readRatio threeOps) = readRatio threeOps \<and>
   (\<exists>n. workerCalls threeOps 7 0 =
       map (\<lambda>j. OpGet 7) [0..n - 1] @ map (\<lambda>j. OpStore 7 (userNo j)) [n..quota threeOps - 1] \<and>
     int (length (filter isRead (workerCalls threeOps 7 0))) = n \<and>
     \<lfloor>readRatio threeOps * of_int (quota threeOps)\<rfloor> \<le> n \<and>
     n \<le> \<lceil>readRatio threeOps * of_int (quota threeOps)\<rceil>)"
proof -
  have q: "0 < quota threeOps" "quota threeOps < 2 ^ 53"
    by (simp_all add: threeOps_def quota_def go_div_def)
  have F: "0 \<le> readRatio threeOps" "readRatio threeOps \<le> 1"
    "round_f64 (readRatio threeOps) = readRatio threeOps"
    by (simp_all add: threeOps_def f64_eval)
  from worker_reads_then_writes [OF q(1), of 7] q F show ?thesis
    by blast
qed

section \<open>Properties of the benchmark driver\<close>

lemma stdout_append [simp]: "stdout (es @ es') = stdout es @ stdout es'"
  by (induction es rule: stdout.induct) simp_all

lemma CreateApp_newApp: "CreateApp b = ([Println appIsStarted], Inr (newApp b))"
  by (simp add: CreateApp_value newApp_def)

lemma appReady_newApp [simp]: "appReady (newApp b)"
  by (simp add: appReady_def appRepo_def newApp_def)

lemma Get_quiet: "initialised u \<Longrightarrow> stdout (fst (Get k u)) = []"
  by (simp add: Get_initialised getFromCache_initialised storeInCache_initialised
      split: option.splits)

lemma Store_quiet: "initialised u \<Longrightarrow> stdout (fst (Store k r u)) = []"
  by (simp add: Store_initialised storeInCache_initialised)

lemma UserS_Get_ready:
  assumes "appReady a"
  shows "\<exists>es res a'. UserS_Get k a = (es, Inr (res, a')) \<and> appReady a' \<and> stdout es = []"
proof -
  from assms obtain sv r where sv: "service (UserS a) = Some sv" and r: "repo sv = Some r"
    and i: "initialised r"
    by (auto simp: appReady_def appRepo_def split: option.splits)
  obtain es res r' where g: "Get k r = (es, Inr (res, r'))" and i': "initialised r'"
    using i by (cases "activeCache r k"; cases "map_lookup (db r) k")
      (auto simp: Get_initialised)
  have q: "stdout es = []"
    using Get_quiet [OF i, of k] g by simp
  have "UserS_Get k a =
      (es, Inr (res, a\<lparr>UserS := (UserS a)\<lparr>service := Some (sv\<lparr>repo := Some r'\<rparr>)\<rparr>,
                        buf := buf a @ printed es\<rparr>))"
    by (simp add: UserS_Get_def UserServer_Get_def UserService_Get_def sv r g andThen_def ret_def)
  moreover have "appReady (a\<lparr>UserS := (UserS a)\<lparr>service := Some (sv\<lparr>repo := Some r'\<rparr>)\<rparr>,
                        buf := buf a @ printed es\<rparr>)"
    using i' by (simp add: appReady_def appRepo_def)
  ultimately show ?thesis
    using q by blast
qed

lemma UserS_Store_ready:
  assumes "appReady a"
  shows "\<exists>es a'. UserS_Store k v a = (es, Inr a') \<and> appReady a' \<and> stdout es = []"
proof -
  from assms obtain sv r where sv: "service (UserS a) = Some sv" and r: "repo sv = Some r"
    and i: "initialised r"
    by (auto simp: appReady_def appRepo_def split: option.splits)
  obtain es r' where g: "Store k v r = (es, Inr r')" and i': "initialised r'"
    using i by (auto simp: Store_initialised)
  have q: "stdout es = []"
    using Store_quiet [OF i, of k v] g by simp
  have "UserS_Store k v a =
      (es, Inr (a\<lparr>UserS := (UserS a)\<lparr>service := Some (sv\<lparr>repo := Some r'\<rparr>)\<rparr>,
                   buf := buf a @ printed es\<rparr>))"
    by (simp add: UserS_Store_def UserServer_Store_def UserService_Store_def sv r g andThen_def
        ret_def)
  moreover have "appReady (a\<lparr>UserS := (UserS a)\<lparr>service := Some (sv\<lparr>repo := Some r'\<rparr>)\<rparr>,
                        buf := buf a @ printed es\<rparr>)"
    using i' by (simp add: appReady_def appRepo_def)
  ultimately show ?thesis
    using q by blast
qed

lemma appRun_ready:
  "appReady a \<Longrightarrow> \<exists>es a'. appRun xs a = (es, Inr a') \<and> appReady a' \<and> stdout es = []"
proof (induction xs arbitrary: a)
  case Nil
  then show ?case by (simp add: ret_def)
next
  case (Cons x xs)
  show ?case
  proof (cases x)
    case (OpGet k)
    from UserS_Get_ready [OF Cons.prems, of k]
    obtain es res a1 where g: "UserS_Get k a = (es, Inr (res, a1))" "appReady a1" "stdout es = []"
      by blast
    from Cons.IH [OF g(2)]
    obtain es' a2 where r: "appRun xs a1 = (es', Inr a2)" "appReady a2" "stdout es' = []"
      by blast
    show ?thesis
      using g r by (simp add: OpGet andThen_def)
  next
    case (OpStore k v)
    from UserS_Store_ready [OF Cons.prems, of k v]
    obtain es a1 where g: "UserS_Store k v a = (es, Inr a1)" "appReady a1" "stdout es = []"
      by blast
    from Cons.IH [OF g(2)]
    obtain es' a2 where r: "appRun xs a1 = (es', Inr a2)" "appReady a2" "stdout es' = []"
      by blast
    show ?thesis
      using g r by (simp add: OpStore andThen_def)
  qed
qed

lemma wgAdd_first:
  assumes "0 \<le> c" "c < 2 ^ 31"
  shows "wgAdd 0 c = Inr (word_of_int c)" "sint (word_of_int c :: 32 word) = c"
proof -
  have "sint (word_of_int c :: 32 word) = signed_take_bit 31 c"
    by (simp add: sint_sbintrunc')
  also have "\<dots> = c"
    using assms by (intro signed_take_bit_int_eq_self) simp_all
  finally show s: "sint (word_of_int c :: 32 word) = c" .
  show "wgAdd 0 c = Inr (word_of_int c)"
    using s assms(1) by (simp add: wgAdd_def Let_def)
qed

lemma wgAdd_Done:
  fixes v :: "32 word"
  assumes "0 < sint v"
  shows "wgAdd v (- 1) = Inr (v - 1)" "sint (v - 1) = sint v - 1"
proof -
  have u: "sint v < 2 ^ 31"
    using sint_lt [of v] by simp
  have "sint (v - 1) = signed_take_bit 31 (sint v - sint (1 :: 32 word))"
    by (simp add: sint_word_ariths)
  also have "\<dots> = signed_take_bit 31 (sint v - 1)"
    by simp
  also have "\<dots> = sint v - 1"
    using assms u by (intro signed_take_bit_int_eq_self) simp_all
  finally show s: "sint (v - 1) = sint v - 1" .
  show "wgAdd v (- 1) = Inr (v - 1)"
    using s assms by (simp add: wgAdd_def Let_def)
qed

lemma wgAdd_overflow: "wgAdd 0 (2 ^ 31) = Inl NegativeWaitGroup"
  by (simp add: wgAdd_def Let_def)

lemma wgAdd_negative: "wgAdd 0 (- 1) = Inl NegativeWaitGroup"
  by (simp add: wgAdd_def Let_def)

lemma spawn_ready:
  "appReady a \<Longrightarrow> i \<le> c \<Longrightarrow> sint wg = c - i \<Longrightarrow>
     \<exists>es a'. spawn callsOf c i wg a = (es, Inr (0, a')) \<and> appReady a' \<and> stdout es = []"
proof (induction callsOf c i wg a rule: spawn.induct)
  case (1 callsOf c i wg app)
  show ?case
  proof (cases "i < c")
    case True
    from appRun_ready [OF "1.prems"(1), of "callsOf i"]
    obtain es a1 where g: "appRun (callsOf i) app = (es, Inr a1)" "appReady a1" "stdout es = []"
      by blast
    have p: "0 < sint wg"
      using True "1.prems"(3) by simp
    have d: "wgAdd wg (- 1) = Inr (wg - 1)" "sint (wg - 1) = c - (i + 1)"
      using wgAdd_Done [OF p] "1.prems"(3) by simp_all
    have le: "i + 1 \<le> c"
      using True by simp
    from "1.IH" [OF True d(1) g(2) le d(2)]
    obtain es' a2 where r: "spawn callsOf c (i + 1) (wg - 1) a1 = (es', Inr (0, a2))"
      "appReady a2" "stdout es' = []"
      by blast
    show ?thesis
      using True g r d(1) by (subst spawn.simps) (simp add: andThen_def)
  next
    case False
    with "1.prems" have "sint wg = 0"
      by simp
    then have "wg = 0"
      by (simp add: signed_eq_0_iff)
    with False "1.prems"(1) show ?thesis
      by (subst spawn.simps) (simp add: ret_def)
  qed
qed

lemma startWorkers_ready:
  assumes "appReady a" "0 \<le> c" "c < 2 ^ 31"
  shows "\<exists>es a'. startWorkers c callsOf a = (es, Inr a') \<and> appReady a' \<and> stdout es = []"
proof -
  have w: "wgAdd 0 c = Inr (word_of_int c)" "sint (word_of_int c :: 32 word) = c - 0"
    using wgAdd_first [OF assms(2,3)] by simp_all
  from spawn_ready [OF assms(1,2) w(2), of callsOf]
  obtain es a' where s: "spawn callsOf c 0 (word_of_int c) a = (es, Inr (0, a'))"
    "appReady a'" "stdout es = []"
    by blast
  have "startWorkers c callsOf a = (es, Inr a')"
    by (simp add: startWorkers_def w(1) s(1) andThen_def wgWait_def ret_def)
  with s show ?thesis
    by blast
qed

text \<open>
  With a concurrency of \<open>2^31\<close> the counter of the \<^verbatim>\<open>WaitGroup\<close> is negative after
  \<^verbatim>\<open>wg.Add\<close>, and with a negative concurrency it mostly is: the call panics before any
  goroutine is started.
\<close>

lemma startWorkers_counter_overflow:
  "startWorkers (2 ^ 31) callsOf a = ([], Inl NegativeWaitGroup)"
  "startWorkers (- 1) callsOf a = ([], Inl NegativeWaitGroup)"
  by (simp_all add: startWorkers_def wgAdd_def Let_def fail_def)

lemma benchLoop_value:
  assumes "RunScenario (newApp b) scale = (E, Inr a')"
  shows "10 - i = n \<Longrightarrow> i \<le> 10 \<Longrightarrow>
    benchLoop b scale since i tot =
      (concat (replicate n (Println appIsStarted # E)),
       Inr (tot + sum_list (map since [i..<10])))"
proof (induction n arbitrary: i tot)
  case 0
  then have "i = 10" by simp
  then show ?case
    by (subst benchLoop.simps) (simp add: ret_def)
next
  case (Suc n)
  then have i: "i < 10" "10 - (i + 1) = n" "i + 1 \<le> 10"
    by simp_all
  have u: "[i..<10] = i # [i + 1..<10]"
    using i(1) by (simp add: upt_rec)
  have s: "benchLoop b scale since (i + 1) (tot + since i) =
        (concat (replicate n (Println appIsStarted # E)),
         Inr (tot + since i + sum_list (map since [i + 1..<10])))"
    by (rule Suc.IH [OF i(2,3)])
  have "benchLoop b scale since i tot =
      andThen (CreateApp b) (\<lambda>app.
        andThen (RunScenario app scale) (\<lambda>_.
        benchLoop b scale since (i + 1) (tot + since i)))"
    using i(1) by (subst benchLoop.simps) simp
  also have "\<dots> = (Println appIsStarted # E @ concat (replicate n (Println appIsStarted # E)),
         Inr (tot + since i + sum_list (map since [i + 1..<10])))"
    by (simp only: CreateApp_newApp assms s andThen_def prod.case sum.case append.simps)
  finally show ?case
    by (simp add: u add.assoc)
qed

lemma runLoop_value:
  assumes "fn = (E, Inr ())"
  shows "10 - i = n \<Longrightarrow> i \<le> 10 \<Longrightarrow>
    runLoop fn since i tot =
      (concat (replicate n E), Inr (tot + sum_list (map since [i..<10])))"
proof (induction n arbitrary: i tot)
  case 0
  then have "i = 10" by simp
  then show ?case
    by (subst runLoop.simps) (simp add: ret_def)
next
  case (Suc n)
  then have i: "i < 10" "10 - (i + 1) = n" "i + 1 \<le> 10"
    by simp_all
  have u: "[i..<10] = i # [i + 1..<10]"
    using i(1) by (simp add: upt_rec)
  have s: "runLoop fn since (i + 1) (tot + since i) =
        (concat (replicate n E), Inr (tot + since i + sum_list (map since [i + 1..<10])))"
    by (rule Suc.IH [OF i(2,3)])
  have "runLoop fn since i tot =
      andThen fn (\<lambda>_. runLoop fn since (i + 1) (tot + since i))"
    using i(1) by (subst runLoop.simps) simp
  also have "\<dots> = (E @ concat (replicate n E),
         Inr (tot + since i + sum_list (map since [i + 1..<10])))"
    by (simp only: s andThen_def) (simp add: assms)
  finally show ?case
    by (simp add: u add.assoc)
qed

lemma stdout_concat_replicate: "stdout es = [] \<Longrightarrow> stdout (concat (replicate n es)) = []"
  by (induction n) simp_all

lemma RunScenario_ready:
  assumes "0 \<le> concurrency scale" "concurrency scale < 2 ^ 31"
  shows "\<exists>E a'. RunScenario (newApp b) scale = (E, Inr a') \<and> stdout E = []"
  using startWorkers_ready [where a = "newApp b" and c = "concurrency scale"
      and callsOf = "\<lambda>uid. workerCalls scale uid 0"] assms
  by (auto simp: RunScenario_def)

lemma BenchmarkScenario_value:
  assumes "RunScenario (newApp b) scale = (E, Inr a')"
  shows "BenchmarkScenario fmt since nm b scale =
     (concat (replicate 10 (Println appIsStarted # E)) @
        [Stdout (averageLine (nm @ '' ('' @ name scale @ '')'')
                   (fmt (Duration_div (sum_list (map since [0..<10])) 10)))],
      Inr ())"
  unfolding BenchmarkScenario_def benchLoop_value [OF assms, of 0 10 since 0, simplified]
  by (simp add: andThen_def emit_def averageLine_def)

lemma showInt_10: "showInt 10 = ''10''"
  by (simp add: showInt_def showNat.simps digit_def)

lemma runScenario_value:
  assumes "fn = (E, Inr ())"
  shows "runScenario fmt since nm fn =
     (concat (replicate 10 E) @
        [Stdout (averageLine nm (fmt (Duration_div (sum_list (map since [0..<10])) 10)))],
      Inr (Duration_div (sum_list (map since [0..<10])) 10))"
  unfolding runScenario_def runLoop_value [OF assms, of 0 10 since 0, simplified]
  by (simp add: andThen_def emit_def ret_def averageLine_def showInt_10 Let_def)

lemma onNewApp_value:
  assumes "scenario (newApp b) = (E, Inr a')"
  shows "onNewApp b scenario = (Println appIsStarted # E, Inr ())"
  by (simp add: onNewApp_def CreateApp_newApp assms andThen_def ret_def)

lemma scenario_ready:
  "\<exists>E a'. ScenarioHeavyRead (newApp b) = (E, Inr a') \<and> stdout E = []"
  "\<exists>E a'. ScenarioHeavyWrite (newApp b) = (E, Inr a') \<and> stdout E = []"
  "\<exists>E a'. ScenarioMixedReadWrite (newApp b) = (E, Inr a') \<and> stdout E = []"
  using startWorkers_ready [where a = "newApp b" and c = 500
      and callsOf = "\<lambda>uid. workerCalls heavyRead uid 0"]
    startWorkers_ready [where a = "newApp b" and c = 500
      and callsOf = "\<lambda>uid. workerCallsW heavyWrite uid 0"]
    startWorkers_ready [where a = "newApp b" and c = 5000
      and callsOf = "\<lambda>uid. workerCalls mixed uid 0"]
  by (auto simp: ScenarioHeavyRead_def ScenarioHeavyWrite_def ScenarioMixedReadWrite_def)

lemma closure_value:
  assumes "\<exists>E a'. scenario (newApp b) = (E, Inr a') \<and> stdout E = []"
  shows "\<exists>E a'. scenario (newApp b) = (E, Inr a') \<and>
           onNewApp b scenario = (Println appIsStarted # E, Inr ()) \<and>
           stdout (fst (onNewApp b scenario)) = []"
proof -
  from assms obtain E a' where s: "scenario (newApp b) = (E, Inr a')" "stdout E = []"
    by blast
  have "onNewApp b scenario = (Println appIsStarted # E, Inr ())"
    using s(1) by (rule onNewApp_value)
  with s show ?thesis
    by simp
qed

lemma closures_fresh:
  assumes "fn \<in> set [ScenarioSyncMapHeavyRead, ScenarioSyncMapHeavyWrite,
             ScenarioRWMutexHeavyRead, ScenarioRWMutexHeavyWrite, ScenarioSyncMapMixed,
             ScenarioRWMutexMixed]"
  shows "\<exists>b scenario E a'. fn = onNewApp b scenario \<and> scenario (newApp b) = (E, Inr a') \<and>
      fn = (Println appIsStarted # E, Inr ()) \<and> stdout (fst fn) = []"
proof -
  have c: "\<exists>E a'. scenario (newApp b) = (E, Inr a') \<and>
           onNewApp b scenario = (Println appIsStarted # E, Inr ()) \<and>
           stdout (fst (onNewApp b scenario)) = []"
    if "scenario \<in> {ScenarioHeavyRead, ScenarioHeavyWrite, ScenarioMixedReadWrite}"
    for b scenario
    using that scenario_ready [of b] by (intro closure_value) auto
  from assms obtain b scenario where f: "fn = onNewApp b scenario"
    and m: "scenario \<in> {ScenarioHeavyRead, ScenarioHeavyWrite, ScenarioMixedReadWrite}"
    unfolding ScenarioSyncMapHeavyRead_def ScenarioSyncMapHeavyWrite_def
      ScenarioRWMutexHeavyRead_def ScenarioRWMutexHeavyWrite_def ScenarioSyncMapMixed_def
      ScenarioRWMutexMixed_def
    by auto
  from c [OF m, of b] f show ?thesis
    by auto
qed

text \<open>
  So \<^verbatim>\<open>BenchmarkScenario\<close> with a concurrency of \<open>2^31\<close> ends in the first iteration
  and prints nothing.
\<close>

lemma BenchmarkScenario_counter_overflow:
  assumes "concurrency scale = 2 ^ 31"
  shows "BenchmarkScenario fmt since nm b scale = ([Println appIsStarted], Inl NegativeWaitGroup)"
proof -
  have r: "RunScenario app scale = ([], Inl NegativeWaitGroup)" for app
    unfolding RunScenario_def assms by (rule startWorkers_counter_overflow(1))
  have "benchLoop b scale since 0 0 = ([Println appIsStarted], Inl NegativeWaitGroup)"
    by (subst benchLoop.simps) (simp add: CreateApp_newApp r andThen_def)
  then show ?thesis
    by (simp add: BenchmarkScenario_def andThen_def)
qed

lemma sint_sum_list:
  fixes xs :: "64 word list"
  assumes "\<forall>x \<in> set xs. 0 \<le> sint x" "sum_list (map sint xs) < 2 ^ 63"
  shows "sint (sum_list xs) = sum_list (map sint xs)"
  using assms
proof (induction xs)
  case Nil
  then show ?case by simp
next
  case (Cons x xs)
  have nn: "0 \<le> sum_list (map sint xs)"
    using Cons.prems(1) by (intro sum_list_nonneg) auto
  have x0: "0 \<le> sint x"
    using Cons.prems(1) by simp
  have "sum_list (map sint xs) < 2 ^ 63"
    using Cons.prems(2) x0 by simp
  with Cons.IH Cons.prems(1) have ih: "sint (sum_list xs) = sum_list (map sint xs)"
    by simp
  have "sint (x + sum_list xs) = signed_take_bit 63 (sint x + sint (sum_list xs))"
    by (simp add: sint_word_ariths)
  also have "\<dots> = sint x + sint (sum_list xs)"
    using x0 nn Cons.prems(2) unfolding ih
    by (intro signed_take_bit_int_eq_self) simp_all
  finally show ?case
    by (simp add: ih)
qed

lemma Duration_div_mean:
  fixes xs :: "64 word list"
  assumes "\<forall>x \<in> set xs. 0 \<le> sint x" "sum_list (map sint xs) < 2 ^ 63"
  shows "sint (Duration_div (sum_list xs) 10) = sum_list (map sint xs) div 10"
proof -
  let ?s = "sum_list (map sint xs)"
  have nn: "0 \<le> ?s"
    using assms(1) by (intro sum_list_nonneg) auto
  have g: "go_div (sint (sum_list xs)) 10 = ?s div 10"
    unfolding sint_sum_list [OF assms] using nn
    by (cases "?s = 0") (simp_all add: go_div_def)
  have "sint (word_of_int (?s div 10) :: 64 word) = signed_take_bit 63 (?s div 10)"
    by (simp add: sint_sbintrunc')
  also have "\<dots> = ?s div 10"
    using nn assms(2) by (intro signed_take_bit_int_eq_self) simp_all
  finally show ?thesis
    by (simp add: Duration_div_def g)
qed

text \<open>
  Claim C8, as stated, fails for \<^verbatim>\<open>main.go\<close>: the line that \<^verbatim>\<open>BenchmarkScenario\<close>
  prints has the name of the scale, in parentheses, between the scenario name and
  \<^verbatim>\<open>average time\<close>.
\<close>

theorem main_go_line_has_scale:
  "stdout (fst (BenchmarkScenario (\<lambda>d. ''0s'') (\<lambda>i. 0) ''sync.Map heavy read'' True
      smallHeavyRead)) =
     [''sync.Map heavy read (small) average time over 10 runs: 0s'' @ [CHR 0x0A]] \<and>
   stdout (fst (BenchmarkScenario (\<lambda>d. ''0s'') (\<lambda>i. 0) ''sync.Map heavy read'' True
      smallHeavyRead)) \<noteq>
     [''sync.Map heavy read average time over 10 runs: 0s'' @ [CHR 0x0A]]"
proof -
  have "0 \<le> concurrency smallHeavyRead" "concurrency smallHeavyRead < 2 ^ 31"
    by (simp_all add: smallHeavyRead_def)
  from RunScenario_ready [OF this, of True]
  obtain E a' where r: "RunScenario (newApp True) smallHeavyRead = (E, Inr a')" "stdout E = []"
    by blast
  have "stdout (concat (replicate 10 (Println appIsStarted # E))) = []"
    by (rule stdout_concat_replicate) (simp add: r(2))
  moreover have "name smallHeavyRead = ''small''"
    by (simp add: smallHeavyRead_def)
  ultimately show ?thesis
    by (simp add: BenchmarkScenario_value [OF r(1)] averageLine_def)
qed

text \<open>
  Claim C8, amended. With a concurrency from 0 to \<open>2^31 - 1\<close>, which the counter of
  a \<^verbatim>\<open>sync.WaitGroup\<close> can hold, \<^verbatim>\<open>BenchmarkScenario\<close>
  of \<^verbatim>\<open>main.go\<close> performs exactly 10 iterations, each of which creates a new app,
  whose repository has an empty database map and empty caches, and runs the load
  generator on it; it then writes exactly one line to standard output, of the form
  \<^verbatim>\<open><scenario name> (<scale name>) average time over 10 runs: <duration>\<close>, where the
  duration is the sum of the 10 elapsed times divided by 10 (their mean, rounded down to
  the nanosecond, when the elapsed times are not negative and their sum fits in 64
  bits). \<^verbatim>\<open>runScenario\<close> of
  \<^verbatim>\<open>unnamed/part_001\<close> calls its closure exactly 10 times and writes the one line
  \<^verbatim>\<open><scenario name> average time over 10 runs: <duration>\<close>, with the same duration,
  which it also returns; each of the six closures that \<^verbatim>\<open>main\<close> passes creates a new
  app and runs its scenario on it.
\<close>

theorem benchmark_driver:
  "(0 \<le> concurrency scale \<and> concurrency scale < 2 ^ 31 \<longrightarrow>
      (\<exists>E a'. CreateApp b = ([Println appIsStarted], Inr (newApp b)) \<and>
         appRepo (newApp b) = Some (newUserRepo b) \<and>
         db (newUserRepo b) = Some Map.empty \<and> cacheSM (newUserRepo b) = Map.empty \<and>
         cacheRWM (newUserRepo b) = Some Map.empty \<and>
         RunScenario (newApp b) scale = (E, Inr a') \<and>
         BenchmarkScenario fmt since nm b scale =
           (concat (replicate 10 (Println appIsStarted # E)) @
              [Stdout (averageLine (nm @ '' ('' @ name scale @ '')'')
                         (fmt (Duration_div (sum_list (map since [0..<10])) 10)))],
            Inr ()) \<and>
         stdout (fst (BenchmarkScenario fmt since nm b scale)) =
           [averageLine (nm @ '' ('' @ name scale @ '')'')
              (fmt (Duration_div (sum_list (map since [0..<10])) 10))])) \<and>
   (fn = (F, Inr ()) \<and> stdout F = [] \<longrightarrow>
      runScenario fmt since nm fn =
        (concat (replicate 10 F) @
           [Stdout (averageLine nm (fmt (Duration_div (sum_list (map since [0..<10])) 10)))],
         Inr (Duration_div (sum_list (map since [0..<10])) 10)) \<and>
      stdout (fst (runScenario fmt since nm fn)) =
        [averageLine nm (fmt (Duration_div (sum_list (map since [0..<10])) 10))]) \<and>
   (\<forall>g \<in> set [ScenarioSyncMapHeavyRead, ScenarioSyncMapHeavyWrite, ScenarioRWMutexHeavyRead,
                ScenarioRWMutexHeavyWrite, ScenarioSyncMapMixed, ScenarioRWMutexMixed].
      \<exists>b' scenario E a'. g = onNewApp b' scenario \<and> scenario (newApp b') = (E, Inr a') \<and>
        g = (fst (CreateApp b') @ E, Inr ()) \<and> stdout (fst g) = []) \<and>
   ((\<forall>i < 10. 0 \<le> sint (since i)) \<and> sum_list (map (\<lambda>i. sint (since i)) [0..<10]) < 2 ^ 63 \<longrightarrow>
      sint (Duration_div (sum_list (map since [0..<10])) 10) =
        sum_list (map (\<lambda>i. sint (since i)) [0..<10]) div 10)"
proof (intro conjI impI ballI)
  assume c: "0 \<le> concurrency scale \<and> concurrency scale < 2 ^ 31"
  from RunScenario_ready [OF conjunct1 [OF c] conjunct2 [OF c], of b]
  obtain E a' where r: "RunScenario (newApp b) scale = (E, Inr a')" "stdout E = []"
    by blast
  have q: "stdout (concat (replicate 10 (Println appIsStarted # E))) = []"
    by (rule stdout_concat_replicate) (simp add: r(2))
  have "appRepo (newApp b) = Some (newUserRepo b)"
    by (simp add: appRepo_def newApp_def)
  with r(1) q show "\<exists>E a'. CreateApp b = ([Println appIsStarted], Inr (newApp b)) \<and>
         appRepo (newApp b) = Some (newUserRepo b) \<and>
         db (newUserRepo b) = Some Map.empty \<and> cacheSM (newUserRepo b) = Map.empty \<and>
         cacheRWM (newUserRepo b) = Some Map.empty \<and>
         RunScenario (newApp b) scale = (E, Inr a') \<and>
         BenchmarkScenario fmt since nm b scale =
           (concat (replicate 10 (Println appIsStarted # E)) @
              [Stdout (averageLine (nm @ '' ('' @ name scale @ '')'')
                         (fmt (Duration_div (sum_list (map since [0..<10])) 10)))],
            Inr ()) \<and>
         stdout (fst (BenchmarkScenario fmt since nm b scale)) =
           [averageLine (nm @ '' ('' @ name scale @ '')'')
              (fmt (Duration_div (sum_list (map since [0..<10])) 10))]"
    by (intro exI [of _ E] exI [of _ a'])
      (simp add: BenchmarkScenario_value [OF r(1)] CreateApp_newApp newUserRepo_maps)
next
  assume f: "fn = (F, Inr ()) \<and> stdout F = []"
  then have v: "runScenario fmt since nm fn =
        (concat (replicate 10 F) @
           [Stdout (averageLine nm (fmt (Duration_div (sum_list (map since [0..<10])) 10)))],
         Inr (Duration_div (sum_list (map since [0..<10])) 10))"
    by (intro runScenario_value) simp
  then show "runScenario fmt since nm fn =
        (concat (replicate 10 F) @
           [Stdout (averageLine nm (fmt (Duration_div (sum_list (map since [0..<10])) 10)))],
         Inr (Duration_div (sum_list (map since [0..<10])) 10))" .
  have "stdout (concat (replicate 10 F)) = []"
    by (rule stdout_concat_replicate) (simp add: f)
  then show "stdout (fst (runScenario fmt since nm fn)) =
        [averageLine nm (fmt (Duration_div (sum_list (map since [0..<10])) 10))]"
    by (simp add: v)
next
  fix g
  assume "g \<in> set [ScenarioSyncMapHeavyRead, ScenarioSyncMapHeavyWrite,
      ScenarioRWMutexHeavyRead, ScenarioRWMutexHeavyWrite, ScenarioSyncMapMixed,
      ScenarioRWMutexMixed]"
  from closures_fresh [OF this]
  show "\<exists>b' scenario E a'. g = onNewApp b' scenario \<and> scenario (newApp b') = (E, Inr a') \<and>
        g = (fst (CreateApp b') @ E, Inr ()) \<and> stdout (fst g) = []"
    by (simp add: CreateApp_newApp)
next
  assume a: "(\<forall>i < 10. 0 \<le> sint (since i)) \<and>
    sum_list (map (\<lambda>i. sint (since i)) [0..<10]) < 2 ^ 63"
  have m: "map sint (map since [0..<10]) = map (\<lambda>i. sint (since i)) [0..<10]"
    by simp
  have "\<forall>x \<in> set (map since [0..<10]). 0 \<le> sint x"
    using a by auto
  moreover have "sum_list (map sint (map since [0..<10])) < 2 ^ 63"
    using a unfolding m by simp
  ultimately have "sint (Duration_div (sum_list (map since [0..<10])) 10) =
      sum_list (map sint (map since [0..<10])) div 10"
    by (rule Duration_div_mean)
  then show "sint (Duration_div (sum_list (map since [0..<10])) 10) =
        sum_list (map (\<lambda>i. sint (since i)) [0..<10]) div 10"
    unfolding m .
qed

theorem benchmark_driver_witness:
  "0 \<le> concurrency smallHeavyRead \<and> concurrency smallHeavyRead < 2 ^ 31 \<and>
   stdout (fst (BenchmarkScenario (\<lambda>d. ''0s'') (\<lambda>i. 0) ''RWMutex heavy read'' False
      smallHeavyRead)) =
     [''RWMutex heavy read (small) average time over 10 runs: 0s'' @ [CHR 0x0A]] \<and>
   ScenarioRWMutexHeavyRead \<in> set [ScenarioSyncMapHeavyRead, ScenarioSyncMapHeavyWrite,
      ScenarioRWMutexHeavyRead, ScenarioRWMutexHeavyWrite, ScenarioSyncMapMixed,
      ScenarioRWMutexMixed] \<and>
   stdout (fst (runScenario (\<lambda>d. ''0s'') (\<lambda>i. 0) ''RWMutex heavy read''
      ScenarioRWMutexHeavyRead)) =
     [''RWMutex heavy read average time over 10 runs: 0s'' @ [CHR 0x0A]]"
proof -
  have c: "0 \<le> concurrency smallHeavyRead \<and> concurrency smallHeavyRead < 2 ^ 31"
    by (simp add: smallHeavyRead_def)
  have m: "ScenarioRWMutexHeavyRead \<in> set [ScenarioSyncMapHeavyRead, ScenarioSyncMapHeavyWrite,
      ScenarioRWMutexHeavyRead, ScenarioRWMutexHeavyWrite, ScenarioSyncMapMixed,
      ScenarioRWMutexMixed]"
    by simp
  note t = benchmark_driver [of smallHeavyRead False "\<lambda>d. ''0s''" "\<lambda>i. 0" "''RWMutex heavy read''"
      ScenarioRWMutexHeavyRead "fst ScenarioRWMutexHeavyRead"]
  from t m have g: "ScenarioRWMutexHeavyRead = (fst ScenarioRWMutexHeavyRead, Inr ())"
    "stdout (fst ScenarioRWMutexHeavyRead) = []"
    by (metis fst_conv)+
  have n: "name smallHeavyRead = ''small''"
    by (simp add: smallHeavyRead_def)
  have d: "Duration_div (sum_list (map (\<lambda>i. 0) [0..<10])) 10 = 0"
    by (simp add: Duration_div_def go_div_def)
  from t c g have "stdout (fst (BenchmarkScenario (\<lambda>d. ''0s'') (\<lambda>i. 0) ''RWMutex heavy read'' False
      smallHeavyRead)) = [averageLine (''RWMutex heavy read'' @ '' ('' @ name smallHeavyRead @ '')'') ''0s'']"
    by auto
  moreover from t c g have "stdout (fst (runScenario (\<lambda>d. ''0s'') (\<lambda>i. 0) ''RWMutex heavy read''
      ScenarioRWMutexHeavyRead)) = [averageLine ''RWMutex heavy read'' ''0s'']"
    by auto
  ultimately show ?thesis
    using c m by (simp add: averageLine_def n)
qed

end
